theory Spec2Isabelle
  imports Main
begin

section \<open>The time-expanded network of \<^verbatim>\<open>data_model.c\<close>\<close>

text \<open>
  The C file fixes three configuration macros (\<^verbatim>\<open>N_HUBS\<close>, \<^verbatim>\<open>T\<close>,
  \<^verbatim>\<open>M_RESTRICTED\<close>) and derives every other size from them. The macros are
  kept symbolic here, as fields of a record, so that the id helpers and the loops of
  \<^verbatim>\<open>build_example\<close> read as in the source; \<open>reference\<close> holds the values
  the file defines.

  C's \<^verbatim>\<open>int\<close> is modelled by \<open>int\<close>. \<^verbatim>\<open>TOTAL_NODES\<close> is an integer
  constant expression that sizes an array, so a translation unit only exists when it is
  representable; every id computed from a valid coordinate lies below it
  (lemma \<open>ids_fit_int\<close>), so no computation of the model leaves the range of a 32-bit
  \<^verbatim>\<open>int\<close> on such inputs.
\<close>

subsection \<open>Configuration macros\<close>

record params =
  N_HUBS :: int
  T :: int
  M_RESTRICTED :: int

definition reference :: params where
  "reference = \<lparr>N_HUBS = 3, T = 3, M_RESTRICTED = 1\<rparr>"

definition HUB_TIME_COUNT :: "params \<Rightarrow> int" where
  "HUB_TIME_COUNT p = (T p + 1) * N_HUBS p"

definition HUB_SPLIT_COUNT :: "params \<Rightarrow> int" where
  "HUB_SPLIT_COUNT p = 2 * HUB_TIME_COUNT p"

definition TRANSIT_OFFSET :: "params \<Rightarrow> int" where
  "TRANSIT_OFFSET p = HUB_SPLIT_COUNT p"

definition TRANSIT_COUNT :: "params \<Rightarrow> int" where
  "TRANSIT_COUNT p = (T p + 1) * M_RESTRICTED p"

definition TOTAL_NODES :: "params \<Rightarrow> int" where
  "TOTAL_NODES p = HUB_SPLIT_COUNT p + TRANSIT_COUNT p"

definition MAX_EDGES :: int where
  "MAX_EDGES = 128"

subsection \<open>Id helpers\<close>

definition hub_time :: "params \<Rightarrow> int \<Rightarrow> int \<Rightarrow> int" where
  "hub_time p u t = t * N_HUBS p + u"

definition IN :: "params \<Rightarrow> int \<Rightarrow> int \<Rightarrow> int" where
  "IN p u t = 2 * hub_time p u t"

definition OUT :: "params \<Rightarrow> int \<Rightarrow> int \<Rightarrow> int" where
  "OUT p u t = 2 * hub_time p u t + 1"

definition TRANSIT :: "params \<Rightarrow> int \<Rightarrow> int \<Rightarrow> int" where
  "TRANSIT p eid t_wait = TRANSIT_OFFSET p + t_wait * M_RESTRICTED p + eid"

subsection \<open>The adjacency store\<close>

text \<open>
  \<^verbatim>\<open>Edge\<close> and \<^verbatim>\<open>AdjList\<close> are the two structs; \<^verbatim>\<open>graph\<close> is a global
  array of \<^verbatim>\<open>TOTAL_NODES\<close> lists, each holding an array of \<^verbatim>\<open>MAX_EDGES\<close>
  edges and a counter. Both arrays are lists of exactly that length. An object with
  static storage starts zeroed, which is \<open>graph_init\<close>.
\<close>

record Edge =
  to :: int
  cap :: int

record AdjList =
  edges :: "Edge list"
  count :: int

type_synonym graph = "AdjList list"

definition zero_edge :: Edge where
  "zero_edge = \<lparr>to = 0, cap = 0\<rparr>"

definition zero_adj :: AdjList where
  "zero_adj = \<lparr>edges = replicate (nat MAX_EDGES) zero_edge, count = 0\<rparr>"

definition graph_init :: "params \<Rightarrow> graph" where
  "graph_init p = replicate (nat (TOTAL_NODES p)) zero_adj"

text \<open>
  \<^verbatim>\<open>add_edge\<close> returns nothing and checks nothing. Its two subscripts are
  \<^verbatim>\<open>graph[from]\<close> and \<^verbatim>\<open>edges[graph[from].count]\<close>; an execution in which
  one of them is outside its array has no defined behaviour in C. The model makes
  that outcome a value of its own (\<open>Inl\<close>), naming the subscript that left its array;
  it is not an error that the C function reports, since the C function reports none.
\<close>

datatype undefined_behaviour =
  NodeSubscript int
  | EdgeSubscript int int

definition add_edge :: "params \<Rightarrow> graph \<Rightarrow> int \<Rightarrow> int \<Rightarrow> int \<Rightarrow> undefined_behaviour + graph" where
  "add_edge p g from to' cap' =
     (if from < 0 \<or> TOTAL_NODES p \<le> from then Inl (NodeSubscript from)
      else let a = g ! nat from; c = count a in
        if c < 0 \<or> MAX_EDGES \<le> c then Inl (EdgeSubscript from c)
        else Inr (g[nat from :=
               a\<lparr>edges := (edges a)[nat c := \<lparr>to = to', cap = cap'\<rparr>], count := c + 1\<rparr>]))"

subsection \<open>\<^verbatim>\<open>build_example\<close>\<close>

text \<open>
  Each \<^verbatim>\<open>for\<close> loop is a recursive function on its counter and the store. An
  undefined subscript in one call ends the run with that outcome.
\<close>

text \<open>1) Node split edges: the inner loop over \<open>u\<close>, then the outer loop over \<open>t\<close>.\<close>

function split_loop_u :: "params \<Rightarrow> int \<Rightarrow> int \<Rightarrow> graph \<Rightarrow> undefined_behaviour + graph" where
  "split_loop_u p t u g =
     (if u < N_HUBS p then
        (case add_edge p g (IN p u t) (OUT p u t) 1 of
           Inl e \<Rightarrow> Inl e
         | Inr g' \<Rightarrow> split_loop_u p t (u + 1) g')
      else Inr g)"
  by pat_completeness auto
termination
  by (relation "measure (\<lambda>(p, t, u, g). nat (N_HUBS p - u))") auto

function split_loop_t :: "params \<Rightarrow> int \<Rightarrow> graph \<Rightarrow> undefined_behaviour + graph" where
  "split_loop_t p t g =
     (if t \<le> T p then
        (case split_loop_u p t 0 g of
           Inl e \<Rightarrow> Inl e
         | Inr g' \<Rightarrow> split_loop_t p (t + 1) g')
      else Inr g)"
  by pat_completeness auto
termination
  by (relation "measure (\<lambda>(p, t, g). nat (T p + 1 - t))") auto

text \<open>2) Wait edges, allowed only at hub 0 and hub 2.\<close>

function wait_loop :: "params \<Rightarrow> int \<Rightarrow> graph \<Rightarrow> undefined_behaviour + graph" where
  "wait_loop p t g =
     (if t < T p then
        (case add_edge p g (OUT p 0 t) (IN p 0 (t + 1)) 100 of
           Inl e \<Rightarrow> Inl e
         | Inr g1 \<Rightarrow>
            (case add_edge p g1 (OUT p 2 t) (IN p 2 (t + 1)) 100 of
               Inl e \<Rightarrow> Inl e
             | Inr g2 \<Rightarrow> wait_loop p (t + 1) g2))
      else Inr g)"
  by pat_completeness auto
termination
  by (relation "measure (\<lambda>(p, t, g). nat (T p - t))") auto

text \<open>3) Restricted edge 0 -> 1 through the transit slot of route \<open>eid\<close>.\<close>

function transit_loop :: "params \<Rightarrow> int \<Rightarrow> int \<Rightarrow> graph \<Rightarrow> undefined_behaviour + graph" where
  "transit_loop p eid t g =
     (if t \<le> T p - 2 then
        (case add_edge p g (OUT p 0 t) (TRANSIT p eid (t + 1)) 1 of
           Inl e \<Rightarrow> Inl e
         | Inr g1 \<Rightarrow>
            (case add_edge p g1 (TRANSIT p eid (t + 1)) (IN p 1 (t + 2)) 100 of
               Inl e \<Rightarrow> Inl e
             | Inr g2 \<Rightarrow> transit_loop p eid (t + 1) g2))
      else Inr g)"
  by pat_completeness auto
termination
  by (relation "measure (\<lambda>(p, eid, t, g). nat (T p - 1 - t))") auto

text \<open>4) Normal edge 1 -> 2.\<close>

function normal_loop :: "params \<Rightarrow> int \<Rightarrow> graph \<Rightarrow> undefined_behaviour + graph" where
  "normal_loop p t g =
     (if t < T p then
        (case add_edge p g (OUT p 1 t) (IN p 2 (t + 1)) 1 of
           Inl e \<Rightarrow> Inl e
         | Inr g' \<Rightarrow> normal_loop p (t + 1) g')
      else Inr g)"
  by pat_completeness auto
termination
  by (relation "measure (\<lambda>(p, t, g). nat (T p - t))") auto

text \<open>
  The loop equations recur without a pattern, so they are unfolded by hand
  (\<open>subst\<close>) and kept out of the simplifier's rules.
\<close>

declare split_loop_u.simps [simp del]
declare split_loop_t.simps [simp del]
declare wait_loop.simps [simp del]
declare transit_loop.simps [simp del]
declare normal_loop.simps [simp del]

definition build_example :: "params \<Rightarrow> graph \<Rightarrow> undefined_behaviour + graph" where
  "build_example p g =
     (case split_loop_t p 0 g of
        Inl e \<Rightarrow> Inl e
      | Inr g1 \<Rightarrow>
         (case wait_loop p 0 g1 of
            Inl e \<Rightarrow> Inl e
          | Inr g2 \<Rightarrow>
             (case transit_loop p 0 0 g2 of
                Inl e \<Rightarrow> Inl e
              | Inr g3 \<Rightarrow> normal_loop p 0 g3)))"

text \<open>
  \<^verbatim>\<open>main\<close> runs \<^verbatim>\<open>build_example\<close> once, on the zeroed store.
\<close>

definition built :: "params \<Rightarrow> undefined_behaviour + graph" where
  "built p = build_example p (graph_init p)"

subsection \<open>Reading the store\<close>

text \<open>
  \<^verbatim>\<open>print_graph\<close> reads, for node \<open>i\<close>, the entries \<open>0 .. count - 1\<close> of its
  array in index order; \<open>edges_of\<close> is that sequence of \<open>(to, cap)\<close> pairs.
\<close>

definition edges_of :: "graph \<Rightarrow> int \<Rightarrow> (int \<times> int) list" where
  "edges_of g i = map (\<lambda>e. (to e, cap e)) (take (nat (count (g ! nat i))) (edges (g ! nat i)))"

definition out_degree :: "graph \<Rightarrow> int \<Rightarrow> int" where
  "out_degree g i = count (g ! nat i)"

section \<open>The vocabulary of the design\<close>

text \<open>
  The definitions of this section are not in the C file. They write down what the
  design says about the network (coordinates, emission steps, adjacency lists, edge
  kinds), so that it can be compared with the model of the source above.
\<close>

subsection \<open>Semantic coordinates\<close>

text \<open>
  The node families of the layout: the arrival half and the departure half of a
  (hub, time) pair, and the transit slot of a (route, time) pair. \<open>node_id\<close> sends a
  coordinate to the helper that computes its id; \<open>coord_of\<close> reads a coordinate back
  from an id by division, and serves to show that the ids are onto.
\<close>

datatype coord =
  Arrival int int
  | Departure int int
  | TransitSlot int int

fun valid_coord :: "params \<Rightarrow> coord \<Rightarrow> bool" where
  "valid_coord p (Arrival hub t) = (0 \<le> hub \<and> hub < N_HUBS p \<and> 0 \<le> t \<and> t \<le> T p)"
| "valid_coord p (Departure hub t) = (0 \<le> hub \<and> hub < N_HUBS p \<and> 0 \<le> t \<and> t \<le> T p)"
| "valid_coord p (TransitSlot route t) =
     (0 \<le> route \<and> route < M_RESTRICTED p \<and> 0 \<le> t \<and> t \<le> T p)"

fun node_id :: "params \<Rightarrow> coord \<Rightarrow> int" where
  "node_id p (Arrival hub t) = IN p hub t"
| "node_id p (Departure hub t) = OUT p hub t"
| "node_id p (TransitSlot route t) = TRANSIT p route t"

definition coord_of :: "params \<Rightarrow> int \<Rightarrow> coord" where
  "coord_of p i =
     (if i < TRANSIT_OFFSET p then
        (if i mod 2 = 0
         then Arrival ((i div 2) mod N_HUBS p) ((i div 2) div N_HUBS p)
         else Departure ((i div 2) mod N_HUBS p) ((i div 2) div N_HUBS p))
      else TransitSlot ((i - TRANSIT_OFFSET p) mod M_RESTRICTED p)
                       ((i - TRANSIT_OFFSET p) div M_RESTRICTED p))"

definition valid_hub_time :: "params \<Rightarrow> int \<Rightarrow> int \<Rightarrow> bool" where
  "valid_hub_time p hub t = (0 \<le> hub \<and> hub < N_HUBS p \<and> 0 \<le> t \<and> t \<le> T p)"

definition valid_params :: "params \<Rightarrow> bool" where
  "valid_params p = (0 \<le> N_HUBS p \<and> 0 \<le> T p \<and> 0 \<le> M_RESTRICTED p)"

subsection \<open>The calls of \<^verbatim>\<open>add_edge\<close>, as sequences\<close>

text \<open>
  A call of \<^verbatim>\<open>add_edge\<close> is the triple of its arguments, and \<open>run\<close> makes
  the calls of a sequence one after the other. The four sequences below write the
  emission steps of the design as list comprehensions over the time range of each
  step; the lemmas \<open>split_loop_t_run\<close>, \<open>wait_loop_run\<close>, \<open>transit_loop_run\<close> and
  \<open>normal_loop_run\<close> show that each loop of \<^verbatim>\<open>build_example\<close> makes exactly
  these calls, in this order.
\<close>

type_synonym call = "int \<times> int \<times> int"

fun run :: "params \<Rightarrow> call list \<Rightarrow> graph \<Rightarrow> undefined_behaviour + graph" where
  "run p [] g = Inr g"
| "run p ((from, to', cap') # cs) g =
     (case add_edge p g from to' cap' of
        Inl e \<Rightarrow> Inl e
      | Inr g' \<Rightarrow> run p cs g')"

definition split_calls_at :: "params \<Rightarrow> int \<Rightarrow> int \<Rightarrow> call list" where
  "split_calls_at p t u = map (\<lambda>hub. (IN p hub t, OUT p hub t, 1)) [u..N_HUBS p - 1]"

definition split_calls_from :: "params \<Rightarrow> int \<Rightarrow> call list" where
  "split_calls_from p t0 = concat (map (\<lambda>t. split_calls_at p t 0) [t0..T p])"

definition wait_calls_from :: "params \<Rightarrow> int \<Rightarrow> call list" where
  "wait_calls_from p t0 =
     concat (map (\<lambda>t. [(OUT p 0 t, IN p 0 (t + 1), 100), (OUT p 2 t, IN p 2 (t + 1), 100)])
       [t0..T p - 1])"

definition transit_calls_from :: "params \<Rightarrow> int \<Rightarrow> int \<Rightarrow> call list" where
  "transit_calls_from p eid t0 =
     concat (map (\<lambda>t. [(OUT p 0 t, TRANSIT p eid (t + 1), 1),
                        (TRANSIT p eid (t + 1), IN p 1 (t + 2), 100)])
       [t0..T p - 2])"

definition normal_calls_from :: "params \<Rightarrow> int \<Rightarrow> call list" where
  "normal_calls_from p t0 = map (\<lambda>t. (OUT p 1 t, IN p 2 (t + 1), 1)) [t0..T p - 1]"

definition split_calls :: "params \<Rightarrow> call list" where
  "split_calls p = split_calls_from p 0"

definition wait_calls :: "params \<Rightarrow> call list" where
  "wait_calls p = wait_calls_from p 0"

definition transit_calls :: "params \<Rightarrow> call list" where
  "transit_calls p = transit_calls_from p 0 0"

definition normal_calls :: "params \<Rightarrow> call list" where
  "normal_calls p = normal_calls_from p 0"

definition emitted :: "params \<Rightarrow> call list" where
  "emitted p = split_calls p @ wait_calls p @ transit_calls p @ normal_calls p"

text \<open>The outgoing edges that a sequence of calls gives to node \<open>i\<close>, in call order.\<close>

definition calls_of :: "call list \<Rightarrow> int \<Rightarrow> (int \<times> int) list" where
  "calls_of cs i = map snd (filter (\<lambda>c. fst c = i) cs)"

text \<open>
  Every edge of the store as a triple (source, destination, capacity), nodes in
  ascending order and each node's edges in index order, as \<^verbatim>\<open>print_graph\<close>
  lists them.
\<close>

definition all_edges :: "params \<Rightarrow> graph \<Rightarrow> call list" where
  "all_edges p g =
     concat (map (\<lambda>i. map (\<lambda>e. (i, e)) (edges_of g i)) [0..TOTAL_NODES p - 1])"

text \<open>The store is well formed when its two array types have their declared lengths.\<close>

definition wf_graph :: "params \<Rightarrow> graph \<Rightarrow> bool" where
  "wf_graph p g =
     (length g = nat (TOTAL_NODES p) \<and> list_all (\<lambda>a. length (edges a) = nat MAX_EDGES) g)"

subsection \<open>The expected adjacency lists\<close>

text \<open>
  \<^verbatim>\<open>build_example\<close> names the hubs 0, 1 and 2 and the route 0, and its loops run
  over \<open>t\<close> from 0. A configuration is well configured when these exist: at least
  three hubs, at least one restricted route, and a horizon that is not negative.
\<close>

definition well_configured :: "params \<Rightarrow> bool" where
  "well_configured p = (3 \<le> N_HUBS p \<and> 0 \<le> T p \<and> 1 \<le> M_RESTRICTED p)"

text \<open>
  The adjacency list that the design gives to each node: an arrival half leads to its
  departure half; the departure half of hub 0 has its wait edge and then, while two
  steps remain, the edge into the transit slot of route 0; hub 1 has the normal edge
  to hub 2; hub 2 has its wait edge; a transit slot of route 0 at a time in
  \<open>1 .. T - 1\<close> leads to the arrival half of hub 1 one step later. Lemma
  \<open>built_adjacency\<close> shows that the built store holds exactly these lists.
\<close>

fun expected_edges :: "params \<Rightarrow> coord \<Rightarrow> (int \<times> int) list" where
  "expected_edges p (Arrival hub t) = [(OUT p hub t, 1)]"
| "expected_edges p (Departure hub t) =
     (if hub = 0 then
        (if t < T p then [(IN p 0 (t + 1), 100)] else [])
        @ (if t \<le> T p - 2 then [(TRANSIT p 0 (t + 1), 1)] else [])
      else if hub = 1 then (if t < T p then [(IN p 2 (t + 1), 1)] else [])
      else if hub = 2 then (if t < T p then [(IN p 2 (t + 1), 100)] else [])
      else [])"
| "expected_edges p (TransitSlot route t) =
     (if route = 0 \<and> 1 \<le> t \<and> t \<le> T p - 1 then [(IN p 1 (t + 1), 100)] else [])"

subsection \<open>Edge kinds\<close>

text \<open>
  The four kinds of edge of the design, each recognised by its shape and capacity:
  arrival to departure of the same (hub, time) with the hub capacity 1; departure to
  arrival of the same hub one step later with the wait capacity 100; an edge into a
  transit slot with the direct capacity 1 or out of it, one step later, with the
  transit capacity 100; departure to arrival of another hub one step later with the
  direct capacity 1. The capacities are the literals of \<^verbatim>\<open>build_example\<close>.
\<close>

definition is_split :: "params \<Rightarrow> call \<Rightarrow> bool" where
  "is_split p e =
     list_ex (\<lambda>t. list_ex (\<lambda>hub. e = (IN p hub t, OUT p hub t, 1)) [0..N_HUBS p - 1]) [0..T p]"

definition is_wait :: "params \<Rightarrow> call \<Rightarrow> bool" where
  "is_wait p e =
     list_ex (\<lambda>t. list_ex (\<lambda>hub. e = (OUT p hub t, IN p hub (t + 1), 100)) [0..N_HUBS p - 1])
       [0..T p - 1]"

definition is_transit :: "params \<Rightarrow> call \<Rightarrow> bool" where
  "is_transit p e =
     list_ex (\<lambda>t. list_ex (\<lambda>route. list_ex (\<lambda>hub.
         e = (OUT p hub t, TRANSIT p route (t + 1), 1)
         \<or> e = (TRANSIT p route (t + 1), IN p hub (t + 2), 100))
       [0..N_HUBS p - 1]) [0..M_RESTRICTED p - 1]) [0..T p - 2]"

definition is_unrestricted :: "params \<Rightarrow> call \<Rightarrow> bool" where
  "is_unrestricted p e =
     list_ex (\<lambda>t. list_ex (\<lambda>origin. list_ex (\<lambda>dest.
         origin \<noteq> dest \<and> e = (OUT p origin t, IN p dest (t + 1), 1))
       [0..N_HUBS p - 1]) [0..N_HUBS p - 1]) [0..T p - 1]"

text \<open>The edges of the store that arrive at node \<open>i\<close>.\<close>

definition incoming :: "params \<Rightarrow> graph \<Rightarrow> int \<Rightarrow> call list" where
  "incoming p g i = filter (\<lambda>(from, to', cap'). to' = i) (all_edges p g)"

text \<open>
  The edge listing of the reference configuration, read off the call sequence: for
  each node in ascending order, the calls whose source it is. Lemma
  \<open>all_edges_built\<close> shows that it is the listing of the store that the run builds.
\<close>

definition reference_edges :: "call list" where
  "reference_edges =
     concat (map (\<lambda>i. map (\<lambda>e. (i, e)) (calls_of (emitted reference) i))
       [0..TOTAL_NODES reference - 1])"

section \<open>Properties\<close>

subsection \<open>The id layout\<close>

lemma lin_index_bound:
  fixes u t h n :: int
  assumes "0 \<le> u" "u < h" "0 \<le> t" "t \<le> n"
  shows "0 \<le> t * h + u \<and> t * h + u < (n + 1) * h"
proof -
  have h: "0 \<le> h" using assms by simp
  have "t * h \<le> n * h"
    using assms(4) h by (rule mult_right_mono)
  moreover have "0 \<le> t * h"
    using assms(3) h by (rule mult_nonneg_nonneg)
  moreover have "(n + 1) * h = n * h + h"
    by (simp add: distrib_right)
  ultimately show ?thesis
    using assms by linarith
qed

lemma lin_index_div:
  fixes u t h :: int
  assumes "0 \<le> u" "u < h"
  shows "(t * h + u) div h = t \<and> (t * h + u) mod h = u"
  using assms by simp

lemma div_bound:
  fixes k :: int
  assumes "0 \<le> k" "k < (n + 1) * h" "0 \<le> n"
  shows "0 < h \<and> 0 \<le> k div h \<and> k div h \<le> n \<and> 0 \<le> k mod h \<and> k mod h < h"
proof -
  have hpos: "0 < h"
  proof (rule ccontr)
    assume "\<not> 0 < h"
    then have "(n + 1) * h \<le> 0"
      using assms(3) by (simp add: mult_nonneg_nonpos)
    then show False using assms by simp
  qed
  have "h * (k div h) \<le> k"
    using hpos by (metis mult.commute div_mult_mod_eq pos_mod_sign le_add_same_cancel1)
  then have "h * (k div h) < h * (n + 1)"
    using assms(2) by (simp add: mult.commute)
  then have "k div h < n + 1"
    using hpos by (simp add: mult_less_cancel_left_pos)
  moreover have "0 \<le> k div h"
    using hpos assms(1) by (simp add: pos_imp_zdiv_nonneg_iff)
  ultimately show ?thesis using hpos by simp
qed

lemma hub_time_bound:
  assumes "valid_hub_time p u t"
  shows "0 \<le> hub_time p u t \<and> hub_time p u t < HUB_TIME_COUNT p"
  using assms lin_index_bound [of u "N_HUBS p" t "T p"]
  by (simp add: valid_hub_time_def hub_time_def HUB_TIME_COUNT_def)

lemma hub_time_div:
  assumes "valid_hub_time p u t"
  shows "hub_time p u t div N_HUBS p = t \<and> hub_time p u t mod N_HUBS p = u"
  using assms lin_index_div [of u "N_HUBS p" t]
  by (simp add: valid_hub_time_def hub_time_def)

lemma hub_time_inj:
  assumes "valid_hub_time p u t" "valid_hub_time p u' t'" "hub_time p u t = hub_time p u' t'"
  shows "u = u' \<and> t = t'"
  using hub_time_div [OF assms(1)] hub_time_div [OF assms(2)] assms(3) by metis

lemma TRANSIT_COUNT_nonneg: "valid_params p \<Longrightarrow> 0 \<le> TRANSIT_COUNT p"
  by (simp add: valid_params_def TRANSIT_COUNT_def)

lemma IN_bound:
  assumes "valid_hub_time p u t"
  shows "0 \<le> IN p u t \<and> IN p u t < TRANSIT_OFFSET p"
  using hub_time_bound [OF assms]
  by (simp add: IN_def TRANSIT_OFFSET_def HUB_SPLIT_COUNT_def)

lemma OUT_bound:
  assumes "valid_hub_time p u t"
  shows "0 \<le> OUT p u t \<and> OUT p u t < TRANSIT_OFFSET p"
  using hub_time_bound [OF assms]
  by (simp add: OUT_def TRANSIT_OFFSET_def HUB_SPLIT_COUNT_def)

lemma TRANSIT_bound:
  assumes "0 \<le> r" "r < M_RESTRICTED p" "0 \<le> t" "t \<le> T p"
  shows "TRANSIT_OFFSET p \<le> TRANSIT p r t \<and> TRANSIT p r t < TOTAL_NODES p"
  using lin_index_bound [OF assms]
  by (simp add: TRANSIT_def TOTAL_NODES_def TRANSIT_OFFSET_def TRANSIT_COUNT_def)

lemma TRANSIT_OFFSET_nonneg: "valid_params p \<Longrightarrow> 0 \<le> TRANSIT_OFFSET p"
  by (simp add: valid_params_def TRANSIT_OFFSET_def HUB_SPLIT_COUNT_def HUB_TIME_COUNT_def)

lemma node_id_range:
  assumes "valid_params p" "valid_coord p c"
  shows "0 \<le> node_id p c \<and> node_id p c < TOTAL_NODES p"
proof (cases c)
  case (Arrival u t)
  then have "valid_hub_time p u t" using assms(2) by (simp add: valid_hub_time_def)
  from IN_bound [OF this] TRANSIT_COUNT_nonneg [OF assms(1)] Arrival show ?thesis
    by (simp add: TOTAL_NODES_def TRANSIT_OFFSET_def)
next
  case (Departure u t)
  then have "valid_hub_time p u t" using assms(2) by (simp add: valid_hub_time_def)
  from OUT_bound [OF this] TRANSIT_COUNT_nonneg [OF assms(1)] Departure show ?thesis
    by (simp add: TOTAL_NODES_def TRANSIT_OFFSET_def)
next
  case (TransitSlot r t)
  then have "0 \<le> r" "r < M_RESTRICTED p" "0 \<le> t" "t \<le> T p"
    using assms(2) by simp_all
  from TRANSIT_bound [OF this] TRANSIT_OFFSET_nonneg [OF assms(1)] TransitSlot show ?thesis
    by simp
qed

lemma coord_of_node_id:
  assumes "valid_coord p c"
  shows "coord_of p (node_id p c) = c"
proof (cases c)
  case (Arrival u t)
  then have v: "valid_hub_time p u t" using assms by (simp add: valid_hub_time_def)
  from IN_bound [OF v] hub_time_div [OF v] Arrival show ?thesis
    by (simp add: coord_of_def IN_def)
next
  case (Departure u t)
  then have v: "valid_hub_time p u t" using assms by (simp add: valid_hub_time_def)
  have "(2 * hub_time p u t + 1) div 2 = hub_time p u t" by simp
  with OUT_bound [OF v] hub_time_div [OF v] Departure show ?thesis
    by (simp add: coord_of_def OUT_def)
next
  case (TransitSlot r t)
  then have v: "0 \<le> r" "r < M_RESTRICTED p" "0 \<le> t" "t \<le> T p"
    using assms by simp_all
  have "TRANSIT p r t - TRANSIT_OFFSET p = t * M_RESTRICTED p + r"
    by (simp add: TRANSIT_def)
  with TRANSIT_bound [OF v] lin_index_div [OF v(1,2), of t] TransitSlot show ?thesis
    by (simp add: coord_of_def)
qed

lemma node_id_coord_of:
  assumes "valid_params p" "0 \<le> i" "i < TOTAL_NODES p"
  shows "valid_coord p (coord_of p i) \<and> node_id p (coord_of p i) = i"
proof (cases "i < TRANSIT_OFFSET p")
  case True
  have Tn: "0 \<le> T p" using assms(1) by (simp add: valid_params_def)
  have "0 \<le> i div 2" using assms(2) by simp
  moreover have "i div 2 < (T p + 1) * N_HUBS p"
    using True by (simp add: TRANSIT_OFFSET_def HUB_SPLIT_COUNT_def HUB_TIME_COUNT_def)
  ultimately have b: "0 < N_HUBS p \<and> 0 \<le> (i div 2) div N_HUBS p \<and> (i div 2) div N_HUBS p \<le> T p
      \<and> 0 \<le> (i div 2) mod N_HUBS p \<and> (i div 2) mod N_HUBS p < N_HUBS p"
    using Tn by (rule div_bound)
  have e: "(i div 2) div N_HUBS p * N_HUBS p + (i div 2) mod N_HUBS p = i div 2"
    by simp
  have even: "i mod 2 = 0 \<Longrightarrow> 2 * (i div 2) = i" by presburger
  have odd: "i mod 2 \<noteq> 0 \<Longrightarrow> 2 * (i div 2) + 1 = i" by presburger
  show ?thesis
    using True b e even odd by (simp add: coord_of_def IN_def OUT_def hub_time_def)
next
  case False
  have Tn: "0 \<le> T p" using assms(1) by (simp add: valid_params_def)
  let ?j = "i - TRANSIT_OFFSET p"
  have "0 \<le> ?j" using False by simp
  moreover have "?j < (T p + 1) * M_RESTRICTED p"
    using assms(3) by (simp add: TOTAL_NODES_def TRANSIT_OFFSET_def TRANSIT_COUNT_def)
  ultimately have b: "0 < M_RESTRICTED p \<and> 0 \<le> ?j div M_RESTRICTED p \<and> ?j div M_RESTRICTED p \<le> T p
      \<and> 0 \<le> ?j mod M_RESTRICTED p \<and> ?j mod M_RESTRICTED p < M_RESTRICTED p"
    using Tn by (rule div_bound)
  have e: "?j div M_RESTRICTED p * M_RESTRICTED p + ?j mod M_RESTRICTED p = ?j"
    by simp
  show ?thesis
    using False b e by (simp add: coord_of_def TRANSIT_def)
qed

lemma node_id_inj:
  assumes "valid_coord p c" "valid_coord p c'" "node_id p c = node_id p c'"
  shows "c = c'"
  using coord_of_node_id [OF assms(1)] coord_of_node_id [OF assms(2)] assms(3) by metis

lemma node_id_bij:
  assumes "valid_params p"
  shows "bij_betw (node_id p) {c. valid_coord p c} {0..<TOTAL_NODES p}"
proof (rule bij_betw_byWitness [where f' = "coord_of p"])
  show "\<forall>c\<in>{c. valid_coord p c}. coord_of p (node_id p c) = c"
    by (simp add: coord_of_node_id)
  show "\<forall>i\<in>{0..<TOTAL_NODES p}. node_id p (coord_of p i) = i"
    using node_id_coord_of [OF assms] by simp
  show "node_id p ` {c. valid_coord p c} \<subseteq> {0..<TOTAL_NODES p}"
    using node_id_range [OF assms] by auto
  show "coord_of p ` {0..<TOTAL_NODES p} \<subseteq> {c. valid_coord p c}"
    using node_id_coord_of [OF assms] by auto
qed

lemma ids_fit_int:
  assumes "valid_params p" "valid_coord p c" "TOTAL_NODES p \<le> 2 ^ 31 - 1"
  shows "0 \<le> node_id p c \<and> node_id p c \<le> 2 ^ 31 - 1"
  using node_id_range [OF assms(1,2)] assms(3) by simp

text \<open>
  C1. Read with \<open>hub_time\<close> among the functions that must not collide, the claim fails:
  \<open>hub_time\<close> is the intermediate index from which \<open>IN\<close> and \<open>OUT\<close> are derived, and
  its values are also departure ids. In the reference configuration, hub 1 at time 0
  has index 1, which is the departure id of hub 0 at time 0.
\<close>

theorem hub_time_collides_with_OUT:
  "valid_hub_time reference 1 0 \<and> valid_hub_time reference 0 0
   \<and> hub_time reference 1 0 = OUT reference 0 0"
  by (simp add: valid_hub_time_def reference_def hub_time_def OUT_def)

text \<open>
  C1, as amended. For non-negative \<open>N_HUBS\<close>, \<open>T\<close> and \<open>M_RESTRICTED\<close>:
  \<open>TOTAL_NODES = 2*H*(T+1) + R*(T+1)\<close>; each of \<open>hub_time\<close>, \<open>IN\<close>, \<open>OUT\<close> and
  \<open>TRANSIT\<close> is injective on its valid coordinates; the three node-id functions
  \<open>IN\<close>, \<open>OUT\<close> and \<open>TRANSIT\<close> never collide with one another; and together these
  three form a bijection from the valid coordinates onto \<open>[0, TOTAL_NODES)\<close>.
\<close>

theorem node_id_layout:
  assumes "valid_params p"
  shows "TOTAL_NODES p = 2 * N_HUBS p * (T p + 1) + M_RESTRICTED p * (T p + 1)
    \<and> inj_on (\<lambda>(hub, t). hub_time p hub t) {(hub, t). valid_hub_time p hub t}
    \<and> inj_on (\<lambda>(hub, t). IN p hub t) {(hub, t). valid_hub_time p hub t}
    \<and> inj_on (\<lambda>(hub, t). OUT p hub t) {(hub, t). valid_hub_time p hub t}
    \<and> inj_on (\<lambda>(route, t). TRANSIT p route t) {(route, t). valid_coord p (TransitSlot route t)}
    \<and> (\<forall>hub t hub' t'. valid_hub_time p hub t \<and> valid_hub_time p hub' t'
          \<longrightarrow> IN p hub t \<noteq> OUT p hub' t')
    \<and> (\<forall>hub t route t'. valid_hub_time p hub t \<and> valid_coord p (TransitSlot route t')
          \<longrightarrow> IN p hub t \<noteq> TRANSIT p route t' \<and> OUT p hub t \<noteq> TRANSIT p route t')
    \<and> bij_betw (node_id p) {c. valid_coord p c} {0..<TOTAL_NODES p}"
proof -
  have total: "TOTAL_NODES p = 2 * N_HUBS p * (T p + 1) + M_RESTRICTED p * (T p + 1)"
    by (simp add: TOTAL_NODES_def HUB_SPLIT_COUNT_def HUB_TIME_COUNT_def TRANSIT_COUNT_def)
  have inj_ht: "inj_on (\<lambda>(hub, t). hub_time p hub t) {(hub, t). valid_hub_time p hub t}"
    by (rule inj_onI) (auto dest: hub_time_inj)
  have inj_in: "inj_on (\<lambda>(hub, t). IN p hub t) {(hub, t). valid_hub_time p hub t}"
    by (rule inj_onI) (auto simp: IN_def dest: hub_time_inj)
  have inj_out: "inj_on (\<lambda>(hub, t). OUT p hub t) {(hub, t). valid_hub_time p hub t}"
    by (rule inj_onI) (auto simp: OUT_def dest: hub_time_inj)
  have inj_tr: "inj_on (\<lambda>(route, t). TRANSIT p route t)
      {(route, t). valid_coord p (TransitSlot route t)}"
  proof (rule inj_onI)
    fix x y
    assume x: "x \<in> {(route, t). valid_coord p (TransitSlot route t)}"
      and y: "y \<in> {(route, t). valid_coord p (TransitSlot route t)}"
      and e: "(case x of (route, t) \<Rightarrow> TRANSIT p route t) = (case y of (route, t) \<Rightarrow> TRANSIT p route t)"
    obtain r t where xd: "x = (r, t)" by (cases x)
    obtain r' t' where yd: "y = (r', t')" by (cases y)
    have "valid_coord p (TransitSlot r t)" "valid_coord p (TransitSlot r' t')"
      using x y xd yd by simp_all
    moreover have "node_id p (TransitSlot r t) = node_id p (TransitSlot r' t')"
      using e xd yd by simp
    ultimately have "TransitSlot r t = TransitSlot r' t'"
      by (rule node_id_inj)
    then show "x = y" using xd yd by simp
  qed
  have in_out: "\<forall>hub t hub' t'. valid_hub_time p hub t \<and> valid_hub_time p hub' t'
      \<longrightarrow> IN p hub t \<noteq> OUT p hub' t'"
  proof -
    have "\<And>a b :: int. 2 * a \<noteq> 2 * b + 1" by presburger
    then show ?thesis by (simp add: IN_def OUT_def)
  qed
  have hub_tr: "\<forall>hub t route t'. valid_hub_time p hub t \<and> valid_coord p (TransitSlot route t')
      \<longrightarrow> IN p hub t \<noteq> TRANSIT p route t' \<and> OUT p hub t \<noteq> TRANSIT p route t'"
  proof (intro allI impI)
    fix hub t route t'
    assume a: "valid_hub_time p hub t \<and> valid_coord p (TransitSlot route t')"
    then have "TRANSIT_OFFSET p \<le> TRANSIT p route t'"
      using TRANSIT_bound [of route p t'] by simp
    with IN_bound [of p hub t] OUT_bound [of p hub t] a
    show "IN p hub t \<noteq> TRANSIT p route t' \<and> OUT p hub t \<noteq> TRANSIT p route t'"
      by simp
  qed
  from total inj_ht inj_in inj_out inj_tr in_out hub_tr node_id_bij [OF assms]
  show ?thesis by blast
qed

theorem node_id_layout_witness:
  "valid_params reference \<and> TOTAL_NODES reference = 28
   \<and> bij_betw (node_id reference) {c. valid_coord reference c} {0..<28}
   \<and> valid_hub_time reference 1 0 \<and> valid_hub_time reference 0 0
   \<and> valid_coord reference (TransitSlot 0 0)
   \<and> IN reference 1 0 \<noteq> OUT reference 0 0
   \<and> IN reference 1 0 \<noteq> TRANSIT reference 0 0
   \<and> OUT reference 1 0 \<noteq> TRANSIT reference 0 0"
proof -
  have v: "valid_params reference"
    by (simp add: valid_params_def reference_def)
  have t: "TOTAL_NODES reference = 28"
    by (simp add: TOTAL_NODES_def HUB_SPLIT_COUNT_def HUB_TIME_COUNT_def TRANSIT_COUNT_def
        reference_def)
  have h: "valid_hub_time reference 1 0" "valid_hub_time reference 0 0"
    "valid_coord reference (TransitSlot 0 0)"
    by (simp_all add: valid_hub_time_def reference_def)
  note l = node_id_layout [OF v]
  from l have "bij_betw (node_id reference) {c. valid_coord reference c}
      {0..<TOTAL_NODES reference}" by blast
  moreover from l h have "IN reference 1 0 \<noteq> OUT reference 0 0" by blast
  moreover from l h have "IN reference 1 0 \<noteq> TRANSIT reference 0 0
      \<and> OUT reference 1 0 \<noteq> TRANSIT reference 0 0" by blast
  ultimately show ?thesis using v t h by simp
qed

subsection \<open>The loops make the calls of the sequences\<close>

lemma run_append:
  "run p (xs @ ys) g = (case run p xs g of Inl e \<Rightarrow> Inl e | Inr g' \<Rightarrow> run p ys g')"
  by (induction xs arbitrary: g) (auto split: sum.splits)

lemma split_loop_u_run:
  "split_loop_u p t u g = run p (split_calls_at p t u) g"
proof (induction p t u g rule: split_loop_u.induct)
  case (1 p t u g)
  show ?case
  proof (cases "u < N_HUBS p")
    case True
    then have "[u..N_HUBS p - 1] = u # [u + 1..N_HUBS p - 1]"
      by (simp add: upto_rec1)
    with True 1 show ?thesis
      by (subst split_loop_u.simps) (simp add: split_calls_at_def split: sum.splits)
  next
    case False
    then show ?thesis
      by (subst split_loop_u.simps) (simp add: split_calls_at_def)
  qed
qed

lemma split_loop_t_run:
  "split_loop_t p t g = run p (split_calls_from p t) g"
proof (induction p t g rule: split_loop_t.induct)
  case (1 p t g)
  show ?case
  proof (cases "t \<le> T p")
    case True
    then have "[t..T p] = t # [t + 1..T p]"
      by (simp add: upto_rec1)
    with True 1 show ?thesis
      by (subst split_loop_t.simps)
        (simp add: split_calls_from_def run_append split_loop_u_run split: sum.splits)
  next
    case False
    then show ?thesis
      by (subst split_loop_t.simps) (simp add: split_calls_from_def)
  qed
qed

lemma wait_loop_run:
  "wait_loop p t g = run p (wait_calls_from p t) g"
proof (induction p t g rule: wait_loop.induct)
  case (1 p t g)
  show ?case
  proof (cases "t < T p")
    case True
    then have "[t..T p - 1] = t # [t + 1..T p - 1]"
      by (simp add: upto_rec1)
    with True 1 show ?thesis
      by (subst wait_loop.simps) (simp add: wait_calls_from_def split: sum.splits)
  next
    case False
    then show ?thesis
      by (subst wait_loop.simps) (simp add: wait_calls_from_def)
  qed
qed

lemma transit_loop_run:
  "transit_loop p eid t g = run p (transit_calls_from p eid t) g"
proof (induction p eid t g rule: transit_loop.induct)
  case (1 p eid t g)
  show ?case
  proof (cases "t \<le> T p - 2")
    case True
    then have "[t..T p - 2] = t # [t + 1..T p - 2]"
      by (simp add: upto_rec1)
    with True 1 show ?thesis
      by (subst transit_loop.simps) (simp add: transit_calls_from_def split: sum.splits)
  next
    case False
    then show ?thesis
      by (subst transit_loop.simps) (simp add: transit_calls_from_def)
  qed
qed

lemma normal_loop_run:
  "normal_loop p t g = run p (normal_calls_from p t) g"
proof (induction p t g rule: normal_loop.induct)
  case (1 p t g)
  show ?case
  proof (cases "t < T p")
    case True
    then have "[t..T p - 1] = t # [t + 1..T p - 1]"
      by (simp add: upto_rec1)
    with True 1 show ?thesis
      by (subst normal_loop.simps) (simp add: normal_calls_from_def split: sum.splits)
  next
    case False
    then show ?thesis
      by (subst normal_loop.simps) (simp add: normal_calls_from_def)
  qed
qed

lemma build_example_run:
  "build_example p g = run p (emitted p) g"
  by (simp add: build_example_def emitted_def run_append split_loop_t_run wait_loop_run
      transit_loop_run normal_loop_run split_calls_def wait_calls_def transit_calls_def
      normal_calls_def split: sum.splits)

subsection \<open>The store after a sequence of calls\<close>

lemma wf_graph_init: "wf_graph p (graph_init p)"
  by (simp add: wf_graph_def graph_init_def zero_adj_def list_all_length)

lemma edges_of_init:
  assumes "0 \<le> i" "i < TOTAL_NODES p"
  shows "edges_of (graph_init p) i = [] \<and> out_degree (graph_init p) i = 0"
  using assms by (simp add: edges_of_def out_degree_def graph_init_def zero_adj_def)

lemma add_edge_defined:
  assumes "0 \<le> from" "from < TOTAL_NODES p" "0 \<le> out_degree g from" "out_degree g from < MAX_EDGES"
  shows "\<exists>g'. add_edge p g from to' cap' = Inr g'"
  using assms by (simp add: add_edge_def out_degree_def Let_def)

lemma add_edge_InrD:
  assumes "add_edge p g from to' cap' = Inr g'"
  shows "0 \<le> from" and "from < TOTAL_NODES p" and "0 \<le> count (g ! nat from)"
    and "count (g ! nat from) < MAX_EDGES"
    and "g' = g[nat from := (g ! nat from)\<lparr>edges := (edges (g ! nat from))[nat (count (g ! nat from))
              := \<lparr>to = to', cap = cap'\<rparr>], count := count (g ! nat from) + 1\<rparr>]"
  using assms by (auto simp: add_edge_def Let_def split: if_splits)

lemma add_edge_wf:
  assumes "wf_graph p g" "add_edge p g from to' cap' = Inr g'"
  shows "wf_graph p g'"
proof -
  note d = add_edge_InrD [OF assms(2)]
  have "nat from < length g" using d(1,2) assms(1) by (simp add: wf_graph_def)
  then show ?thesis
    using assms(1) by (auto simp: d(5) wf_graph_def list_all_length nth_list_update)
qed

lemma add_edge_edges_of:
  assumes "wf_graph p g" "add_edge p g from to' cap' = Inr g'" "0 \<le> i" "i < TOTAL_NODES p"
  shows "edges_of g' i = (if i = from then edges_of g i @ [(to', cap')] else edges_of g i)"
proof -
  note d = add_edge_InrD [OF assms(2)]
  let ?a = "g ! nat from"
  let ?c = "count ?a"
  have lt: "nat from < length g" using d(1,2) assms(1) by (simp add: wf_graph_def)
  have len: "length (edges ?a) = nat MAX_EDGES"
    using assms(1) lt by (simp add: wf_graph_def list_all_length)
  have clt: "nat ?c < length (edges ?a)" using d(3,4) len by simp
  have suc: "nat (?c + 1) = Suc (nat ?c)" using d(3) by simp
  show ?thesis
  proof (cases "i = from")
    case True
    have "take (nat (?c + 1)) ((edges ?a)[nat ?c := \<lparr>to = to', cap = cap'\<rparr>])
        = take (nat ?c) (edges ?a) @ [\<lparr>to = to', cap = cap'\<rparr>]"
      using clt by (simp add: suc take_Suc_conv_app_nth)
    then show ?thesis
      using True lt by (simp add: d(5) edges_of_def)
  next
    case False
    then have "nat i \<noteq> nat from" using assms(3) d(1) by simp
    then show ?thesis
      using False by (simp add: d(5) edges_of_def)
  qed
qed

lemma add_edge_out_degree:
  assumes "wf_graph p g" "add_edge p g from to' cap' = Inr g'" "0 \<le> i" "i < TOTAL_NODES p"
  shows "out_degree g' i = (if i = from then out_degree g i + 1 else out_degree g i)"
proof -
  note d = add_edge_InrD [OF assms(2)]
  have lt: "nat from < length g" using d(1,2) assms(1) by (simp add: wf_graph_def)
  show ?thesis
  proof (cases "i = from")
    case True
    then show ?thesis using lt by (simp add: d(5) out_degree_def)
  next
    case False
    then have "nat i \<noteq> nat from" using assms(3) d(1) by simp
    then show ?thesis
      using False by (simp add: d(5) out_degree_def)
  qed
qed

lemma calls_of_Cons:
  "calls_of ((from, e) # cs) i = (if from = i then e # calls_of cs i else calls_of cs i)"
  by (simp add: calls_of_def)

lemma calls_of_append: "calls_of (xs @ ys) i = calls_of xs i @ calls_of ys i"
  by (simp add: calls_of_def)

lemma run_wf:
  assumes "wf_graph p g" "run p cs g = Inr g'"
  shows "wf_graph p g'"
  using assms
proof (induction cs arbitrary: g)
  case Nil
  then show ?case by simp
next
  case (Cons c cs)
  obtain f t k where c: "c = (f, t, k)" by (cases c)
  from Cons.prems(2) c obtain g1 where g1: "add_edge p g f t k = Inr g1" "run p cs g1 = Inr g'"
    by (auto split: sum.splits)
  from add_edge_wf [OF Cons.prems(1) g1(1)] g1(2) show ?case
    by (rule Cons.IH)
qed

lemma run_edges_of:
  assumes "wf_graph p g" "run p cs g = Inr g'" "0 \<le> i" "i < TOTAL_NODES p"
  shows "edges_of g' i = edges_of g i @ calls_of cs i
    \<and> out_degree g' i = out_degree g i + int (length (calls_of cs i))"
  using assms(1,2)
proof (induction cs arbitrary: g)
  case Nil
  then show ?case by (simp add: calls_of_def)
next
  case (Cons c cs)
  obtain f t k where c: "c = (f, t, k)" by (cases c)
  from Cons.prems(2) c obtain g1 where g1: "add_edge p g f t k = Inr g1" "run p cs g1 = Inr g'"
    by (auto split: sum.splits)
  have wf1: "wf_graph p g1" using Cons.prems(1) g1(1) by (rule add_edge_wf)
  from Cons.IH [OF wf1 g1(2)]
    add_edge_edges_of [OF Cons.prems(1) g1(1) assms(3,4)]
    add_edge_out_degree [OF Cons.prems(1) g1(1) assms(3,4)]
  show ?case by (simp add: c calls_of_Cons)
qed

lemma run_defined:
  assumes "wf_graph p g"
    and "list_all (\<lambda>c. 0 \<le> fst c \<and> fst c < TOTAL_NODES p) cs"
    and "\<And>i. 0 \<le> i \<Longrightarrow> i < TOTAL_NODES p \<Longrightarrow>
           0 \<le> out_degree g i \<and> out_degree g i + int (length (calls_of cs i)) \<le> MAX_EDGES"
  shows "\<exists>g'. run p cs g = Inr g'"
  using assms
proof (induction cs arbitrary: g)
  case Nil
  then show ?case by simp
next
  case (Cons c cs)
  obtain f t k where c: "c = (f, t, k)" by (cases c)
  have fr: "0 \<le> f" "f < TOTAL_NODES p" using Cons.prems(2) c by simp_all
  from Cons.prems(3) [OF fr] have "0 \<le> out_degree g f" "out_degree g f < MAX_EDGES"
    by (simp_all add: c calls_of_Cons)
  with fr obtain g1 where g1: "add_edge p g f t k = Inr g1"
    using add_edge_defined by blast
  have wf1: "wf_graph p g1" using Cons.prems(1) g1 by (rule add_edge_wf)
  have rest: "list_all (\<lambda>c. 0 \<le> fst c \<and> fst c < TOTAL_NODES p) cs"
    using Cons.prems(2) by simp
  have deg: "0 \<le> out_degree g1 i \<and> out_degree g1 i + int (length (calls_of cs i)) \<le> MAX_EDGES"
    if "0 \<le> i" "i < TOTAL_NODES p" for i
    using Cons.prems(3) [OF that] add_edge_out_degree [OF Cons.prems(1) g1 that]
    by (simp add: c calls_of_Cons split: if_splits)
  from Cons.IH [OF wf1 rest deg] obtain g' where "run p cs g1 = Inr g'" by blast
  then show ?case using g1 c by simp
qed

subsection \<open>The built store\<close>

lemma built_run: "built p = run p (emitted p) (graph_init p)"
  by (simp add: built_def build_example_run)

lemma built_edges_of:
  assumes "built p = Inr g" "0 \<le> i" "i < TOTAL_NODES p"
  shows "edges_of g i = calls_of (emitted p) i"
    and "out_degree g i = int (length (calls_of (emitted p) i))"
proof -
  have r: "run p (emitted p) (graph_init p) = Inr g"
    using assms(1) by (simp add: built_run)
  from run_edges_of [OF wf_graph_init r assms(2,3)] edges_of_init [OF assms(2,3)]
  show "edges_of g i = calls_of (emitted p) i"
    and "out_degree g i = int (length (calls_of (emitted p) i))"
    by simp_all
qed

lemma all_edges_built:
  assumes "built p = Inr g"
  shows "all_edges p g
    = concat (map (\<lambda>i. map (\<lambda>e. (i, e)) (calls_of (emitted p) i)) [0..TOTAL_NODES p - 1])"
proof -
  have "map (\<lambda>i. map (\<lambda>e. (i, e)) (edges_of g i)) [0..TOTAL_NODES p - 1]
      = map (\<lambda>i. map (\<lambda>e. (i, e)) (calls_of (emitted p) i)) [0..TOTAL_NODES p - 1]"
    by (rule map_cong) (simp_all add: built_edges_of [OF assms])
  then show ?thesis unfolding all_edges_def by (rule arg_cong)
qed

lemma calls_of_concat: "calls_of (concat xss) i = concat (map (\<lambda>xs. calls_of xs i) xss)"
  by (induction xss) (simp_all add: calls_of_def)

lemma calls_of_none:
  assumes "\<And>t. t \<in> set ts \<Longrightarrow> k t \<noteq> i"
  shows "calls_of (map (\<lambda>t. (k t, e t)) ts) i = []"
  using assms by (induction ts) (simp_all add: calls_of_def)

lemma calls_of_unique:
  assumes "distinct ts" "\<And>t. t \<in> set ts \<Longrightarrow> (k t = i) = (t = t0)"
  shows "calls_of (map (\<lambda>t. (k t, e t)) ts) i = (if t0 \<in> set ts then [e t0] else [])"
  using assms by (induction ts) (auto simp: calls_of_def)

lemma calls_of_pairs_left:
  assumes "\<And>t. t \<in> set ts \<Longrightarrow> k2 t \<noteq> i"
  shows "calls_of (concat (map (\<lambda>t. [(k1 t, e1 t), (k2 t, e2 t)]) ts)) i
    = calls_of (map (\<lambda>t. (k1 t, e1 t)) ts) i"
  using assms by (induction ts) (simp_all add: calls_of_def)

lemma calls_of_pairs_right:
  assumes "\<And>t. t \<in> set ts \<Longrightarrow> k1 t \<noteq> i"
  shows "calls_of (concat (map (\<lambda>t. [(k1 t, e1 t), (k2 t, e2 t)]) ts)) i
    = calls_of (map (\<lambda>t. (k2 t, e2 t)) ts) i"
  using assms by (induction ts) (simp_all add: calls_of_def)

lemma concat_map_single:
  assumes "distinct ts"
  shows "concat (map (\<lambda>t. if t = t0 then f t else []) ts) = (if t0 \<in> set ts then f t0 else [])"
  using assms by (induction ts) auto

lemma hub_time_eq_iff:
  assumes "0 \<le> u" "u < N_HUBS p" "0 \<le> u'" "u' < N_HUBS p"
  shows "(hub_time p u t = hub_time p u' t') = (u = u' \<and> t = t')"
proof
  assume e: "hub_time p u t = hub_time p u' t'"
  from lin_index_div [OF assms(1,2), of t] lin_index_div [OF assms(3,4), of t'] e
  show "u = u' \<and> t = t'"
    unfolding hub_time_def by metis
qed simp

lemma IN_eq_iff:
  assumes "0 \<le> u" "u < N_HUBS p" "0 \<le> u'" "u' < N_HUBS p"
  shows "(IN p u t = IN p u' t') = (u = u' \<and> t = t')"
  using hub_time_eq_iff [OF assms, of t t'] by (simp add: IN_def)

lemma OUT_eq_iff:
  assumes "0 \<le> u" "u < N_HUBS p" "0 \<le> u'" "u' < N_HUBS p"
  shows "(OUT p u t = OUT p u' t') = (u = u' \<and> t = t')"
  using hub_time_eq_iff [OF assms, of t t'] by (simp add: OUT_def)

lemma IN_neq_OUT: "IN p u t \<noteq> OUT p u' t'"
proof -
  have "\<And>a b :: int. 2 * a \<noteq> 2 * b + 1" by presburger
  then show ?thesis by (simp add: IN_def OUT_def)
qed

lemma TRANSIT_eq_iff:
  assumes "0 \<le> r" "r < M_RESTRICTED p" "0 \<le> r'" "r' < M_RESTRICTED p"
  shows "(TRANSIT p r t = TRANSIT p r' t') = (r = r' \<and> t = t')"
proof
  assume e: "TRANSIT p r t = TRANSIT p r' t'"
  then have "t * M_RESTRICTED p + r = t' * M_RESTRICTED p + r'"
    by (simp add: TRANSIT_def)
  with lin_index_div [OF assms(1,2), of t] lin_index_div [OF assms(3,4), of t']
  show "r = r' \<and> t = t'"
    by metis
qed simp


lemma well_configured_hubs:
  assumes "well_configured p"
  shows "0 < N_HUBS p" "1 < N_HUBS p" "2 < N_HUBS p" "0 < M_RESTRICTED p" "0 \<le> T p"
  using assms by (simp_all add: well_configured_def)

lemma calls_of_split_Arrival:
  assumes "valid_hub_time p hub0 t0"
  shows "calls_of (split_calls p) (IN p hub0 t0) = [(OUT p hub0 t0, 1)]"
proof -
  have h0: "0 \<le> hub0" "hub0 < N_HUBS p" "0 \<le> t0" "t0 \<le> T p"
    using assms by (simp_all add: valid_hub_time_def)
  have at: "calls_of (split_calls_at p t 0) (IN p hub0 t0)
      = (if t = t0 then [(OUT p hub0 t0, 1)] else [])" for t
  proof (cases "t = t0")
    case True
    have "calls_of (map (\<lambda>hub. (IN p hub t0, (OUT p hub t0, 1))) [0..N_HUBS p - 1]) (IN p hub0 t0)
        = (if hub0 \<in> set [0..N_HUBS p - 1] then [(OUT p hub0 t0, 1)] else [])"
      by (rule calls_of_unique) (simp_all add: IN_eq_iff h0)
    then show ?thesis using True h0 by (simp add: split_calls_at_def)
  next
    case False
    have "calls_of (map (\<lambda>hub. (IN p hub t, (OUT p hub t, 1))) [0..N_HUBS p - 1]) (IN p hub0 t0) = []"
      by (rule calls_of_none) (simp add: IN_eq_iff h0 False)
    then show ?thesis using False by (simp add: split_calls_at_def)
  qed
  have "calls_of (split_calls p) (IN p hub0 t0)
      = concat (map (\<lambda>t. if t = t0 then [(OUT p hub0 t0, 1)] else []) [0..T p])"
    by (simp add: split_calls_def split_calls_from_def calls_of_concat comp_def at)
  also have "\<dots> = (if t0 \<in> set [0..T p] then [(OUT p hub0 t0, 1)] else [])"
    by (rule concat_map_single) simp
  finally show ?thesis using h0 by simp
qed

lemma calls_of_split_none:
  assumes "\<And>hub t. 0 \<le> hub \<Longrightarrow> hub < N_HUBS p \<Longrightarrow> 0 \<le> t \<Longrightarrow> t \<le> T p \<Longrightarrow> IN p hub t \<noteq> i"
  shows "calls_of (split_calls p) i = []"
proof -
  have "calls_of (split_calls_at p t 0) i = []" if "t \<in> set [0..T p]" for t
    unfolding split_calls_at_def
    by (rule calls_of_none) (use that assms in simp)
  then show ?thesis
    by (simp add: split_calls_def split_calls_from_def calls_of_concat)
qed

lemma calls_of_wait_Departure:
  assumes "well_configured p" "0 \<le> hub0" "hub0 < N_HUBS p"
  shows "calls_of (wait_calls p) (OUT p hub0 t0)
    = (if (hub0 = 0 \<or> hub0 = 2) \<and> 0 \<le> t0 \<and> t0 < T p then [(IN p hub0 (t0 + 1), 100)] else [])"
proof -
  note wc = well_configured_hubs [OF assms(1)]
  consider (zero) "hub0 = 0" | (two) "hub0 = 2" | (other) "hub0 \<noteq> 0" "hub0 \<noteq> 2"
    by blast
  then show ?thesis
  proof cases
    case zero
    have "calls_of (wait_calls p) (OUT p 0 t0)
        = calls_of (map (\<lambda>t. (OUT p 0 t, (IN p 0 (t + 1), 100))) [0..T p - 1]) (OUT p 0 t0)"
      unfolding wait_calls_def wait_calls_from_def
      by (rule calls_of_pairs_left) (simp add: OUT_eq_iff wc)
    also have "\<dots> = (if t0 \<in> set [0..T p - 1] then [(IN p 0 (t0 + 1), 100)] else [])"
      by (rule calls_of_unique) (simp_all add: OUT_eq_iff wc)
    finally show ?thesis using zero by simp
  next
    case two
    have "calls_of (wait_calls p) (OUT p 2 t0)
        = calls_of (map (\<lambda>t. (OUT p 2 t, (IN p 2 (t + 1), 100))) [0..T p - 1]) (OUT p 2 t0)"
      unfolding wait_calls_def wait_calls_from_def
      by (rule calls_of_pairs_right) (simp add: OUT_eq_iff wc)
    also have "\<dots> = (if t0 \<in> set [0..T p - 1] then [(IN p 2 (t0 + 1), 100)] else [])"
      by (rule calls_of_unique) (simp_all add: OUT_eq_iff wc)
    finally show ?thesis using two by simp
  next
    case other
    have "calls_of (wait_calls p) (OUT p hub0 t0)
        = calls_of (map (\<lambda>t. (OUT p 0 t, (IN p 0 (t + 1), 100))) [0..T p - 1]) (OUT p hub0 t0)"
      unfolding wait_calls_def wait_calls_from_def
      by (rule calls_of_pairs_left) (use other in \<open>simp add: OUT_eq_iff wc assms\<close>)
    also have "\<dots> = []"
      by (rule calls_of_none) (use other in \<open>simp add: OUT_eq_iff wc assms\<close>)
    finally show ?thesis using other by simp
  qed
qed

lemma calls_of_wait_none:
  assumes "well_configured p"
    and "\<And>hub t. 0 \<le> hub \<Longrightarrow> hub < N_HUBS p \<Longrightarrow> 0 \<le> t \<Longrightarrow> t \<le> T p \<Longrightarrow> OUT p hub t \<noteq> i"
  shows "calls_of (wait_calls p) i = []"
proof -
  note wc = well_configured_hubs [OF assms(1)]
  have "calls_of (wait_calls p) i
      = calls_of (map (\<lambda>t. (OUT p 0 t, (IN p 0 (t + 1), 100))) [0..T p - 1]) i"
    unfolding wait_calls_def wait_calls_from_def
    by (rule calls_of_pairs_left) (simp add: assms(2) wc)
  also have "\<dots> = []"
    by (rule calls_of_none) (simp add: assms(2) wc)
  finally show ?thesis .
qed

lemma calls_of_normal_Departure:
  assumes "well_configured p" "0 \<le> hub0" "hub0 < N_HUBS p"
  shows "calls_of (normal_calls p) (OUT p hub0 t0)
    = (if hub0 = 1 \<and> 0 \<le> t0 \<and> t0 < T p then [(IN p 2 (t0 + 1), 1)] else [])"
proof -
  note wc = well_configured_hubs [OF assms(1)]
  show ?thesis
  proof (cases "hub0 = 1")
    case True
    have "calls_of (map (\<lambda>t. (OUT p 1 t, (IN p 2 (t + 1), 1))) [0..T p - 1]) (OUT p 1 t0)
        = (if t0 \<in> set [0..T p - 1] then [(IN p 2 (t0 + 1), 1)] else [])"
      by (rule calls_of_unique) (simp_all add: OUT_eq_iff wc)
    then show ?thesis using True by (simp add: normal_calls_def normal_calls_from_def)
  next
    case False
    have "calls_of (map (\<lambda>t. (OUT p 1 t, (IN p 2 (t + 1), 1))) [0..T p - 1]) (OUT p hub0 t0) = []"
      by (rule calls_of_none) (use False in \<open>simp add: OUT_eq_iff wc assms\<close>)
    then show ?thesis using False by (simp add: normal_calls_def normal_calls_from_def)
  qed
qed

lemma calls_of_normal_none:
  assumes "well_configured p"
    and "\<And>hub t. 0 \<le> hub \<Longrightarrow> hub < N_HUBS p \<Longrightarrow> 0 \<le> t \<Longrightarrow> t \<le> T p \<Longrightarrow> OUT p hub t \<noteq> i"
  shows "calls_of (normal_calls p) i = []"
  unfolding normal_calls_def normal_calls_from_def
  by (rule calls_of_none) (simp add: assms(2) well_configured_hubs [OF assms(1)])


lemma well_configured_valid: "well_configured p \<Longrightarrow> valid_params p"
  by (simp add: well_configured_def valid_params_def)

lemma hub_below_TRANSIT:
  assumes "valid_hub_time p hub t" "0 \<le> r" "r < M_RESTRICTED p" "0 \<le> t'" "t' \<le> T p"
  shows "IN p hub t \<noteq> TRANSIT p r t'" and "OUT p hub t \<noteq> TRANSIT p r t'"
  using IN_bound [OF assms(1)] OUT_bound [OF assms(1)] TRANSIT_bound [OF assms(2-5)]
  by simp_all

lemma calls_of_transit_Departure:
  assumes "well_configured p" "valid_hub_time p hub0 t0"
  shows "calls_of (transit_calls p) (OUT p hub0 t0)
    = (if hub0 = 0 \<and> t0 \<le> T p - 2 then [(TRANSIT p 0 (t0 + 1), 1)] else [])"
proof -
  note wc = well_configured_hubs [OF assms(1)]
  have h0: "0 \<le> hub0" "hub0 < N_HUBS p" "0 \<le> t0" "t0 \<le> T p"
    using assms(2) by (simp_all add: valid_hub_time_def)
  have "calls_of (transit_calls p) (OUT p hub0 t0)
      = calls_of (map (\<lambda>t. (OUT p 0 t, (TRANSIT p 0 (t + 1), 1))) [0..T p - 2]) (OUT p hub0 t0)"
    unfolding transit_calls_def transit_calls_from_def
  proof (rule calls_of_pairs_left)
    fix t assume "t \<in> set [0..T p - 2]"
    then have "0 \<le> t + 1" "t + 1 \<le> T p" by simp_all
    from hub_below_TRANSIT(2) [OF assms(2) _ wc(4) this]
    show "TRANSIT p 0 (t + 1) \<noteq> OUT p hub0 t0" by simp
  qed
  also have "\<dots> = (if hub0 = 0 \<and> t0 \<le> T p - 2 then [(TRANSIT p 0 (t0 + 1), 1)] else [])"
  proof (cases "hub0 = 0")
    case True
    have "calls_of (map (\<lambda>t. (OUT p 0 t, (TRANSIT p 0 (t + 1), 1))) [0..T p - 2]) (OUT p 0 t0)
        = (if t0 \<in> set [0..T p - 2] then [(TRANSIT p 0 (t0 + 1), 1)] else [])"
      by (rule calls_of_unique) (simp_all add: OUT_eq_iff wc)
    then show ?thesis using True h0 by simp
  next
    case False
    have "calls_of (map (\<lambda>t. (OUT p 0 t, (TRANSIT p 0 (t + 1), 1))) [0..T p - 2]) (OUT p hub0 t0) = []"
      by (rule calls_of_none) (use False in \<open>simp add: OUT_eq_iff wc h0\<close>)
    then show ?thesis using False by simp
  qed
  finally show ?thesis .
qed

lemma calls_of_transit_Arrival:
  assumes "well_configured p" "valid_hub_time p hub0 t0"
  shows "calls_of (transit_calls p) (IN p hub0 t0) = []"
proof -
  note wc = well_configured_hubs [OF assms(1)]
  have "calls_of (transit_calls p) (IN p hub0 t0)
      = calls_of (map (\<lambda>t. (OUT p 0 t, (TRANSIT p 0 (t + 1), 1))) [0..T p - 2]) (IN p hub0 t0)"
    unfolding transit_calls_def transit_calls_from_def
  proof (rule calls_of_pairs_left)
    fix t assume "t \<in> set [0..T p - 2]"
    then have "0 \<le> t + 1" "t + 1 \<le> T p" by simp_all
    from hub_below_TRANSIT(1) [OF assms(2) _ wc(4) this]
    show "TRANSIT p 0 (t + 1) \<noteq> IN p hub0 t0" by simp
  qed
  also have "\<dots> = []"
    by (rule calls_of_none) (simp add: IN_neq_OUT [symmetric])
  finally show ?thesis .
qed

lemma calls_of_transit_TransitSlot:
  assumes "well_configured p" "0 \<le> r0" "r0 < M_RESTRICTED p" "0 \<le> t0" "t0 \<le> T p"
  shows "calls_of (transit_calls p) (TRANSIT p r0 t0)
    = (if r0 = 0 \<and> 1 \<le> t0 \<and> t0 \<le> T p - 1 then [(IN p 1 (t0 + 1), 100)] else [])"
proof -
  note wc = well_configured_hubs [OF assms(1)]
  have "calls_of (transit_calls p) (TRANSIT p r0 t0)
      = calls_of (map (\<lambda>t. (TRANSIT p 0 (t + 1), (IN p 1 (t + 2), 100))) [0..T p - 2])
          (TRANSIT p r0 t0)"
    unfolding transit_calls_def transit_calls_from_def
  proof (rule calls_of_pairs_right)
    fix t assume "t \<in> set [0..T p - 2]"
    then have "valid_hub_time p 0 t" using wc by (simp add: valid_hub_time_def)
    from hub_below_TRANSIT(2) [OF this assms(2-5)]
    show "OUT p 0 t \<noteq> TRANSIT p r0 t0" .
  qed
  also have "\<dots> = (if r0 = 0 \<and> 1 \<le> t0 \<and> t0 \<le> T p - 1 then [(IN p 1 (t0 + 1), 100)] else [])"
  proof (cases "r0 = 0")
    case True
    have "calls_of (map (\<lambda>t. (TRANSIT p 0 (t + 1), (IN p 1 (t + 2), 100))) [0..T p - 2])
          (TRANSIT p 0 t0)
        = (if t0 - 1 \<in> set [0..T p - 2] then [(IN p 1 (t0 - 1 + 2), 100)] else [])"
    proof (rule calls_of_unique)
      fix t
      have "(TRANSIT p 0 (t + 1) = TRANSIT p 0 t0) = (t + 1 = t0)"
        using TRANSIT_eq_iff [of 0 p 0 "t + 1" t0] wc by simp
      then show "(TRANSIT p 0 (t + 1) = TRANSIT p 0 t0) = (t = t0 - 1)" by auto
    qed simp
    then show ?thesis using True by (simp add: algebra_simps)
  next
    case False
    have "calls_of (map (\<lambda>t. (TRANSIT p 0 (t + 1), (IN p 1 (t + 2), 100))) [0..T p - 2])
          (TRANSIT p r0 t0) = []"
    proof (rule calls_of_none)
      fix t
      show "TRANSIT p 0 (t + 1) \<noteq> TRANSIT p r0 t0"
        using TRANSIT_eq_iff [of 0 p r0 "t + 1" t0] wc assms(2,3) False by simp
    qed
    then show ?thesis using False by simp
  qed
  finally show ?thesis .
qed

lemma calls_of_emitted:
  assumes "well_configured p" "valid_coord p c"
  shows "calls_of (emitted p) (node_id p c) = expected_edges p c"
proof (cases c)
  case (Arrival hub t)
  then have v: "valid_hub_time p hub t" using assms(2) by (simp add: valid_hub_time_def)
  have "calls_of (wait_calls p) (IN p hub t) = []"
    by (rule calls_of_wait_none [OF assms(1)]) (simp add: IN_neq_OUT [symmetric])
  moreover have "calls_of (normal_calls p) (IN p hub t) = []"
    by (rule calls_of_normal_none [OF assms(1)]) (simp add: IN_neq_OUT [symmetric])
  ultimately show ?thesis
    using Arrival calls_of_split_Arrival [OF v] calls_of_transit_Arrival [OF assms(1) v]
    by (simp add: emitted_def calls_of_append)
next
  case (Departure hub t)
  then have v: "valid_hub_time p hub t" using assms(2) by (simp add: valid_hub_time_def)
  then have h: "0 \<le> hub" "hub < N_HUBS p" "0 \<le> t" "t \<le> T p"
    by (simp_all add: valid_hub_time_def)
  have "calls_of (split_calls p) (OUT p hub t) = []"
    by (rule calls_of_split_none) (simp add: IN_neq_OUT)
  then show ?thesis
    using Departure h calls_of_wait_Departure [OF assms(1) h(1,2), of t]
      calls_of_transit_Departure [OF assms(1) v]
      calls_of_normal_Departure [OF assms(1) h(1,2), of t]
    by (simp add: emitted_def calls_of_append)
next
  case (TransitSlot r t)
  then have v: "0 \<le> r" "r < M_RESTRICTED p" "0 \<le> t" "t \<le> T p"
    using assms(2) by simp_all
  have hub: "IN p hub' t' \<noteq> TRANSIT p r t" "OUT p hub' t' \<noteq> TRANSIT p r t"
    if "0 \<le> hub'" "hub' < N_HUBS p" "0 \<le> t'" "t' \<le> T p" for hub' t'
  proof -
    have "valid_hub_time p hub' t'" using that by (simp add: valid_hub_time_def)
    from hub_below_TRANSIT [OF this v]
    show "IN p hub' t' \<noteq> TRANSIT p r t" "OUT p hub' t' \<noteq> TRANSIT p r t" .
  qed
  have "calls_of (split_calls p) (TRANSIT p r t) = []"
    by (rule calls_of_split_none) (rule hub(1))
  moreover have "calls_of (wait_calls p) (TRANSIT p r t) = []"
    by (rule calls_of_wait_none [OF assms(1)]) (rule hub(2))
  moreover have "calls_of (normal_calls p) (TRANSIT p r t) = []"
    by (rule calls_of_normal_none [OF assms(1)]) (rule hub(2))
  ultimately show ?thesis
    using TransitSlot calls_of_transit_TransitSlot [OF assms(1) v]
    by (simp add: emitted_def calls_of_append)
qed

lemma expected_edges_length: "length (expected_edges p c) \<le> 2"
  by (cases c) simp_all


lemma hub_id_range:
  assumes "valid_params p" "valid_hub_time p hub t"
  shows "0 \<le> IN p hub t \<and> IN p hub t < TOTAL_NODES p
    \<and> 0 \<le> OUT p hub t \<and> OUT p hub t < TOTAL_NODES p"
proof -
  have "valid_coord p (Arrival hub t)" "valid_coord p (Departure hub t)"
    using assms(2) by (simp_all add: valid_hub_time_def)
  from node_id_range [OF assms(1) this(1)] node_id_range [OF assms(1) this(2)]
  show ?thesis by simp
qed

lemma emitted_sources_in_range:
  assumes "well_configured p"
  shows "list_all (\<lambda>c. 0 \<le> fst c \<and> fst c < TOTAL_NODES p) (emitted p)"
proof -
  note wc = well_configured_hubs [OF assms]
  note vp = well_configured_valid [OF assms]
  have hub: "0 \<le> IN p hub t \<and> IN p hub t < TOTAL_NODES p
      \<and> 0 \<le> OUT p hub t \<and> OUT p hub t < TOTAL_NODES p"
    if "0 \<le> hub" "hub < N_HUBS p" "0 \<le> t" "t \<le> T p" for hub t
    using hub_id_range [OF vp, of hub t] that by (simp add: valid_hub_time_def)
  have tr: "0 \<le> TRANSIT p 0 t \<and> TRANSIT p 0 t < TOTAL_NODES p"
    if "0 \<le> t" "t \<le> T p" for t
    using node_id_range [OF vp, of "TransitSlot 0 t"] that wc by simp
  have "list_all (\<lambda>c. 0 \<le> fst c \<and> fst c < TOTAL_NODES p) (split_calls p)"
    using hub by (simp add: split_calls_def split_calls_from_def split_calls_at_def list_all_iff)
  moreover have "list_all (\<lambda>c. 0 \<le> fst c \<and> fst c < TOTAL_NODES p) (wait_calls p)"
    using hub wc by (simp add: wait_calls_def wait_calls_from_def list_all_iff)
  moreover have "list_all (\<lambda>c. 0 \<le> fst c \<and> fst c < TOTAL_NODES p) (transit_calls p)"
    using hub tr wc by (simp add: transit_calls_def transit_calls_from_def list_all_iff)
  moreover have "list_all (\<lambda>c. 0 \<le> fst c \<and> fst c < TOTAL_NODES p) (normal_calls p)"
    using hub wc by (simp add: normal_calls_def normal_calls_from_def list_all_iff)
  ultimately show ?thesis by (simp add: emitted_def)
qed

lemma calls_of_emitted_length:
  assumes "well_configured p" "0 \<le> i" "i < TOTAL_NODES p"
  shows "length (calls_of (emitted p) i) \<le> 2"
proof -
  from node_id_coord_of [OF well_configured_valid [OF assms(1)] assms(2,3)]
  have "valid_coord p (coord_of p i)" "node_id p (coord_of p i) = i" by simp_all
  with calls_of_emitted [OF assms(1), of "coord_of p i"] expected_edges_length [of p "coord_of p i"]
  show ?thesis by simp
qed

lemma built_defined:
  assumes "well_configured p"
  shows "\<exists>g. built p = Inr g"
proof -
  have "\<exists>g. run p (emitted p) (graph_init p) = Inr g"
  proof (rule run_defined [OF wf_graph_init emitted_sources_in_range [OF assms]])
    fix i assume i: "0 \<le> i" "i < TOTAL_NODES p"
    from edges_of_init [OF i] calls_of_emitted_length [OF assms i]
    show "0 \<le> out_degree (graph_init p) i
        \<and> out_degree (graph_init p) i + int (length (calls_of (emitted p) i)) \<le> MAX_EDGES"
      by (simp add: MAX_EDGES_def)
  qed
  then show ?thesis by (simp add: built_run)
qed

lemma built_adjacency:
  assumes "well_configured p" "built p = Inr g" "valid_coord p c"
  shows "edges_of g (node_id p c) = expected_edges p c"
proof -
  from node_id_range [OF well_configured_valid [OF assms(1)] assms(3)]
  have "edges_of g (node_id p c) = calls_of (emitted p) (node_id p c)"
    using built_edges_of(1) [OF assms(2)] by simp
  then show ?thesis by (simp add: calls_of_emitted [OF assms(1,3)])
qed

lemma set_calls_of: "set (calls_of cs i) = {e. (i, e) \<in> set cs}"
  by (auto simp: calls_of_def image_iff)



lemma in_all_edges:
  "(i, e) \<in> set (all_edges p g) \<longleftrightarrow> 0 \<le> i \<and> i < TOTAL_NODES p \<and> e \<in> set (edges_of g i)"
  by (auto simp: all_edges_def)

lemma run_sources_in_range:
  assumes "run p cs g = Inr g'"
  shows "list_all (\<lambda>c. 0 \<le> fst c \<and> fst c < TOTAL_NODES p) cs"
  using assms
proof (induction cs arbitrary: g)
  case Nil
  show ?case by simp
next
  case (Cons c cs)
  obtain f t k where c: "c = (f, t, k)" by (cases c)
  from Cons.prems c obtain g1 where g1: "add_edge p g f t k = Inr g1" "run p cs g1 = Inr g'"
    by (auto split: sum.splits)
  from add_edge_InrD(1,2) [OF g1(1)] Cons.IH [OF g1(2)] show ?case
    by (simp add: c)
qed

lemma set_all_edges_built:
  assumes "built p = Inr g"
  shows "set (all_edges p g) = set (emitted p)"
proof -
  have "list_all (\<lambda>c. 0 \<le> fst c \<and> fst c < TOTAL_NODES p) (emitted p)"
    using assms run_sources_in_range [of p "emitted p" "graph_init p" g] by (simp add: built_run)
  then have r: "0 \<le> fst c \<and> fst c < TOTAL_NODES p" if "c \<in> set (emitted p)" for c
    using that by (simp add: list_all_iff)
  show ?thesis
  proof (rule set_eqI)
    fix c :: call
    obtain f e where c: "c = (f, e)" by (cases c)
    show "c \<in> set (all_edges p g) \<longleftrightarrow> c \<in> set (emitted p)"
      using r [of c] by (auto simp: c all_edges_built [OF assms] set_calls_of)
  qed
qed


lemma count_list_calls_of: "count_list (calls_of cs i) e = count_list cs (i, e)"
  by (induction cs) (auto simp: calls_of_def)

lemma in_split_calls:
  "(f, to', c) \<in> set (split_calls p) \<longleftrightarrow>
     (\<exists>t hub. 0 \<le> t \<and> t \<le> T p \<and> 0 \<le> hub \<and> hub < N_HUBS p
        \<and> f = IN p hub t \<and> to' = OUT p hub t \<and> c = 1)"
proof
  assume "(f, to', c) \<in> set (split_calls p)"
  then obtain t hub where "t \<in> {0..T p}" "hub \<in> {0..N_HUBS p - 1}"
    "(f, to', c) = (IN p hub t, OUT p hub t, 1)"
    by (auto simp: split_calls_def split_calls_from_def split_calls_at_def)
  then have "0 \<le> t \<and> t \<le> T p \<and> 0 \<le> hub \<and> hub < N_HUBS p
        \<and> f = IN p hub t \<and> to' = OUT p hub t \<and> c = 1"
    by simp
  then show "\<exists>t hub. 0 \<le> t \<and> t \<le> T p \<and> 0 \<le> hub \<and> hub < N_HUBS p
        \<and> f = IN p hub t \<and> to' = OUT p hub t \<and> c = 1"
    by blast
next
  assume "\<exists>t hub. 0 \<le> t \<and> t \<le> T p \<and> 0 \<le> hub \<and> hub < N_HUBS p
        \<and> f = IN p hub t \<and> to' = OUT p hub t \<and> c = 1"
  then obtain t hub where r: "t \<in> {0..T p}" "hub \<in> {0..N_HUBS p - 1}"
    and e: "(f, to', c) = (IN p hub t, OUT p hub t, 1)"
    by auto
  from r(2) have "(IN p hub t, OUT p hub t, 1) \<in> set (split_calls_at p t 0)"
    by (simp add: split_calls_at_def)
  with r(1) show "(f, to', c) \<in> set (split_calls p)"
    unfolding e split_calls_def split_calls_from_def by auto
qed

lemma in_wait_calls:
  "(f, to', c) \<in> set (wait_calls p) \<longleftrightarrow>
     (\<exists>t. 0 \<le> t \<and> t < T p \<and> c = 100
        \<and> (f = OUT p 0 t \<and> to' = IN p 0 (t + 1) \<or> f = OUT p 2 t \<and> to' = IN p 2 (t + 1)))"
  by (auto simp: wait_calls_def wait_calls_from_def)

lemma in_transit_calls:
  "(f, to', c) \<in> set (transit_calls p) \<longleftrightarrow>
     (\<exists>t. 0 \<le> t \<and> t \<le> T p - 2
        \<and> (f = OUT p 0 t \<and> to' = TRANSIT p 0 (t + 1) \<and> c = 1
            \<or> f = TRANSIT p 0 (t + 1) \<and> to' = IN p 1 (t + 2) \<and> c = 100))"
  by (auto simp: transit_calls_def transit_calls_from_def)

lemma in_normal_calls:
  "(f, to', c) \<in> set (normal_calls p) \<longleftrightarrow>
     (\<exists>t. 0 \<le> t \<and> t < T p \<and> f = OUT p 1 t \<and> to' = IN p 2 (t + 1) \<and> c = 1)"
  by (auto simp: normal_calls_def normal_calls_from_def)

lemma emitted_into_TRANSIT:
  assumes "well_configured p" "0 \<le> t'" "t' \<le> T p" "(f, TRANSIT p 0 t', c) \<in> set (emitted p)"
  shows "f = OUT p 0 (t' - 1) \<and> c = 1"
proof -
  note wc = well_configured_hubs [OF assms(1)]
  have hub: "TRANSIT p 0 t' \<noteq> IN p hub t" "TRANSIT p 0 t' \<noteq> OUT p hub t"
    if "0 \<le> hub" "hub < N_HUBS p" "0 \<le> t" "t \<le> T p" for hub t
  proof -
    have "valid_hub_time p hub t" using that by (simp add: valid_hub_time_def)
    from hub_below_TRANSIT [OF this _ wc(4) assms(2,3)]
    show "TRANSIT p 0 t' \<noteq> IN p hub t" "TRANSIT p 0 t' \<noteq> OUT p hub t" by simp_all
  qed
  have "(f, TRANSIT p 0 t', c) \<notin> set (split_calls p)"
    unfolding in_split_calls using hub(2) by blast
  moreover have "(f, TRANSIT p 0 t', c) \<notin> set (wait_calls p)"
  proof
    assume "(f, TRANSIT p 0 t', c) \<in> set (wait_calls p)"
    then obtain t where "0 \<le> t" "t < T p"
      "TRANSIT p 0 t' = IN p 0 (t + 1) \<or> TRANSIT p 0 t' = IN p 2 (t + 1)"
      unfolding in_wait_calls by blast
    with hub(1) [of 0 "t + 1"] hub(1) [of 2 "t + 1"] wc show False by simp
  qed
  moreover have "(f, TRANSIT p 0 t', c) \<notin> set (normal_calls p)"
  proof
    assume "(f, TRANSIT p 0 t', c) \<in> set (normal_calls p)"
    then obtain t where "0 \<le> t" "t < T p" "TRANSIT p 0 t' = IN p 2 (t + 1)"
      unfolding in_normal_calls by blast
    with hub(1) [of 2 "t + 1"] wc show False by simp
  qed
  ultimately have "(f, TRANSIT p 0 t', c) \<in> set (transit_calls p)"
    using assms(4) by (simp add: emitted_def)
  then obtain t where t: "0 \<le> t" "t \<le> T p - 2"
    and e: "f = OUT p 0 t \<and> TRANSIT p 0 t' = TRANSIT p 0 (t + 1) \<and> c = 1
        \<or> f = TRANSIT p 0 (t + 1) \<and> TRANSIT p 0 t' = IN p 1 (t + 2) \<and> c = 100"
    unfolding in_transit_calls by blast
  have "TRANSIT p 0 t' \<noteq> IN p 1 (t + 2)"
    using hub(1) [of 1 "t + 2"] wc t by simp
  with e have r: "f = OUT p 0 t" "c = 1" "TRANSIT p 0 t' = TRANSIT p 0 (t + 1)"
    by blast+
  from r(3) have "t' = t + 1"
    using TRANSIT_eq_iff [of 0 p 0 t' "t + 1"] wc by simp
  with r show ?thesis by simp
qed

lemma reference_well_configured: "well_configured reference"
  by (simp add: well_configured_def reference_def)






subsection \<open>The reference build\<close>

lemma reference_defined: "\<exists>g. built reference = Inr g"
proof -
  have "case built reference of Inl _ \<Rightarrow> False | Inr _ \<Rightarrow> True"
    by code_simp
  then show ?thesis by (cases "built reference") simp_all
qed


text \<open>
  C2. In the reference configuration (\<open>H = 3\<close>, \<open>T = 3\<close>, \<open>R = 1\<close>, restricted route
  0 -> 1, waiting at hubs 0 and 2, capacities 1, 100, 100 and 1) the run of
  \<^verbatim>\<open>build_example\<close> on the zeroed store is defined, and the store it leaves holds
  exactly 12 capacity-split edges, 6 wait edges, 4 transit-route edges and 3
  unrestricted edges, 25 edges in all.
\<close>

theorem reference_edge_counts:
  "\<exists>g. built reference = Inr g
     \<and> length (filter (is_split reference) (all_edges reference g)) = 12
     \<and> length (filter (is_wait reference) (all_edges reference g)) = 6
     \<and> length (filter (is_transit reference) (all_edges reference g)) = 4
     \<and> length (filter (is_unrestricted reference) (all_edges reference g)) = 3
     \<and> length (all_edges reference g) = 25"
proof -
  obtain g where g: "built reference = Inr g"
    using reference_defined by blast
  have e: "all_edges reference g = reference_edges"
    by (simp add: all_edges_built [OF g] reference_edges_def)
  have "length (filter (is_split reference) reference_edges) = 12" by code_simp
  moreover have "length (filter (is_wait reference) reference_edges) = 6" by code_simp
  moreover have "length (filter (is_transit reference) reference_edges) = 4" by code_simp
  moreover have "length (filter (is_unrestricted reference) reference_edges) = 3" by code_simp
  moreover have "length reference_edges = 25" by code_simp
  ultimately show ?thesis using g e by simp
qed


text \<open>
  C9. In the reference build the calls that \<^verbatim>\<open>build_example\<close> makes are those of
  \<open>emitted reference\<close>; each has its source and its destination in
  \<open>[0, TOTAL_NODES)\<close>; the run is defined (no subscript leaves its array); afterwards
  every node has out-degree at most 2, below \<open>MAX_EDGES = 128\<close>, and every node's list
  is exactly the calls made for it, so no edge is lost.
\<close>

theorem reference_build_in_bounds:
  "built reference = run reference (emitted reference) (graph_init reference)
   \<and> list_all (\<lambda>(from, to', cap'). 0 \<le> from \<and> from < TOTAL_NODES reference
                  \<and> 0 \<le> to' \<and> to' < TOTAL_NODES reference) (emitted reference)
   \<and> (\<exists>g. built reference = Inr g
          \<and> list_all (\<lambda>i. out_degree g i \<le> 2) [0..TOTAL_NODES reference - 1]
          \<and> list_all (\<lambda>i. edges_of g i = calls_of (emitted reference) i)
               [0..TOTAL_NODES reference - 1]
          \<and> length (all_edges reference g) = length (emitted reference))
   \<and> 2 < MAX_EDGES"
proof -
  obtain g where g: "built reference = Inr g"
    using reference_defined by blast
  have calls: "list_all (\<lambda>(from, to', cap'). 0 \<le> from \<and> from < TOTAL_NODES reference
      \<and> 0 \<le> to' \<and> to' < TOTAL_NODES reference) (emitted reference)"
    by code_simp
  have "list_all (\<lambda>i. int (length (calls_of (emitted reference) i)) \<le> 2)
      [0..TOTAL_NODES reference - 1]"
    by code_simp
  then have deg: "list_all (\<lambda>i. out_degree g i \<le> 2) [0..TOTAL_NODES reference - 1]"
    by (simp add: list_all_iff built_edges_of(2) [OF g])
  have adj: "list_all (\<lambda>i. edges_of g i = calls_of (emitted reference) i)
      [0..TOTAL_NODES reference - 1]"
    by (simp add: list_all_iff built_edges_of(1) [OF g])
  have "length reference_edges = length (emitted reference)"
    by code_simp
  then have len: "length (all_edges reference g) = length (emitted reference)"
    by (simp add: all_edges_built [OF g] reference_edges_def)
  have "2 < MAX_EDGES" by (simp add: MAX_EDGES_def)
  with built_run [of reference] calls g deg adj len show ?thesis by blast
qed

text \<open>
  C10. In the reference build the transit slots of times 0 and \<open>T\<close> (ids 24 and 27,
  both below \<open>TOTAL_NODES = 28\<close>) have no outgoing and no incoming edge; the slots of
  times 1 and 2 each have one incoming edge, from the departure half of hub 0 one step
  earlier, and one outgoing edge, to the arrival half of hub 1 one step later.
\<close>

theorem reference_end_slots_isolated:
  "TRANSIT reference 0 0 = 24 \<and> TRANSIT reference 0 (T reference) = 27
   \<and> TOTAL_NODES reference = 28
   \<and> (\<exists>g. built reference = Inr g
          \<and> edges_of g (TRANSIT reference 0 0) = []
          \<and> edges_of g (TRANSIT reference 0 (T reference)) = []
          \<and> incoming reference g (TRANSIT reference 0 0) = []
          \<and> incoming reference g (TRANSIT reference 0 (T reference)) = []
          \<and> list_all (\<lambda>t. edges_of g (TRANSIT reference 0 t) = [(IN reference 1 (t + 1), 100)]
                \<and> incoming reference g (TRANSIT reference 0 t)
                    = [(OUT reference 0 (t - 1), TRANSIT reference 0 t, 1)])
               [1..T reference - 1])"
proof -
  obtain g where g: "built reference = Inr g"
    using reference_defined by blast
  have ids: "TRANSIT reference 0 0 = 24" "TRANSIT reference 0 (T reference) = 27"
    "TOTAL_NODES reference = 28" "[1..T reference - 1] = [1, 2]"
    by code_simp+
  have tr: "TRANSIT reference 0 1 = 25" "TRANSIT reference 0 2 = 26"
    by code_simp+
  have e: "all_edges reference g = reference_edges"
    by (simp add: all_edges_built [OF g] reference_edges_def)
  have out: "calls_of (emitted reference) 24 = []" "calls_of (emitted reference) 27 = []"
    "calls_of (emitted reference) 25 = [(IN reference 1 2, 100)]"
    "calls_of (emitted reference) 26 = [(IN reference 1 3, 100)]"
    by code_simp+
  have inc: "filter (\<lambda>(from, to', cap'). to' = 24) reference_edges = []"
    "filter (\<lambda>(from, to', cap'). to' = 27) reference_edges = []"
    "filter (\<lambda>(from, to', cap'). to' = 25) reference_edges = [(OUT reference 0 0, 25, 1)]"
    "filter (\<lambda>(from, to', cap'). to' = 26) reference_edges = [(OUT reference 0 1, 26, 1)]"
    by code_simp+
  have "edges_of g 24 = calls_of (emitted reference) 24"
    "edges_of g 27 = calls_of (emitted reference) 27"
    "edges_of g 25 = calls_of (emitted reference) 25"
    "edges_of g 26 = calls_of (emitted reference) 26"
    by (simp_all add: built_edges_of(1) [OF g] ids)
  with g ids tr e out inc show ?thesis
    by (simp add: incoming_def)
qed

subsection \<open>The steps of the build in general\<close>

text \<open>
  C3. The loop of the restricted route 0 (origin 0, destination 1) makes, for
  \<open>t = 0, ..., T - 2\<close> in this order, the call for the edge \<open>OUT(0, t) -> TRANSIT(0, t + 1)\<close>
  with capacity 1 and then the call for \<open>TRANSIT(0, t + 1) -> IN(1, t + 2)\<close> with capacity
  100. When \<open>T < 2\<close> it makes no call and returns the store as it was. In every well
  configured build, for each such \<open>t\<close> the slot \<open>TRANSIT(0, t + 1)\<close> has that one outgoing
  edge, its only incoming edge is the one from \<open>OUT(0, t)\<close>, and the list of
  \<open>OUT(0, t)\<close> holds one edge into the slot: the route takes two steps.
\<close>

theorem transit_route_edges:
  "transit_loop p 0 0 g0
     = run p (concat (map (\<lambda>t. [(OUT p 0 t, TRANSIT p 0 (t + 1), 1),
                                  (TRANSIT p 0 (t + 1), IN p 1 (t + 2), 100)]) [0..T p - 2])) g0
   \<and> (T p < 2 \<longrightarrow> transit_loop p 0 0 g0 = Inr g0)
   \<and> (well_configured p \<longrightarrow>
        (\<exists>g. built p = Inr g
           \<and> (\<forall>t. 0 \<le> t \<and> t \<le> T p - 2 \<longrightarrow>
                 edges_of g (OUT p 0 t) = [(IN p 0 (t + 1), 100), (TRANSIT p 0 (t + 1), 1)]
               \<and> edges_of g (TRANSIT p 0 (t + 1)) = [(IN p 1 (t + 2), 100)]
               \<and> (\<forall>from to' cap'. (from, to', cap') \<in> set (all_edges p g)
                      \<and> to' = TRANSIT p 0 (t + 1) \<longrightarrow> from = OUT p 0 t \<and> cap' = 1))))"
proof (intro conjI impI)
  show "transit_loop p 0 0 g0
     = run p (concat (map (\<lambda>t. [(OUT p 0 t, TRANSIT p 0 (t + 1), 1),
                                  (TRANSIT p 0 (t + 1), IN p 1 (t + 2), 100)]) [0..T p - 2])) g0"
    by (simp add: transit_loop_run transit_calls_from_def)
next
  assume "T p < 2"
  then show "transit_loop p 0 0 g0 = Inr g0"
    by (subst transit_loop.simps) simp
next
  assume wc: "well_configured p"
  note h = well_configured_hubs [OF wc]
  obtain g where g: "built p = Inr g"
    using built_defined [OF wc] by blast
  have "edges_of g (OUT p 0 t) = [(IN p 0 (t + 1), 100), (TRANSIT p 0 (t + 1), 1)]
      \<and> edges_of g (TRANSIT p 0 (t + 1)) = [(IN p 1 (t + 2), 100)]
      \<and> (\<forall>from to' cap'. (from, to', cap') \<in> set (all_edges p g)
             \<and> to' = TRANSIT p 0 (t + 1) \<longrightarrow> from = OUT p 0 t \<and> cap' = 1)"
    if t: "0 \<le> t \<and> t \<le> T p - 2" for t
  proof (intro conjI allI impI)
    have "valid_coord p (Departure 0 t)" using t h by simp
    from built_adjacency [OF wc g this] t
    show "edges_of g (OUT p 0 t) = [(IN p 0 (t + 1), 100), (TRANSIT p 0 (t + 1), 1)]"
      by simp
  next
    have "valid_coord p (TransitSlot 0 (t + 1))" using t h by simp
    from built_adjacency [OF wc g this] t
    show "edges_of g (TRANSIT p 0 (t + 1)) = [(IN p 1 (t + 2), 100)]"
      by (simp add: algebra_simps)
  next
    fix "from" to' cap'
    assume a: "(from, to', cap') \<in> set (all_edges p g) \<and> to' = TRANSIT p 0 (t + 1)"
    then have "(from, TRANSIT p 0 (t + 1), cap') \<in> set (emitted p)"
      by (auto simp: set_all_edges_built [OF g])
    from emitted_into_TRANSIT [OF wc _ _ this] t
    show "from = OUT p 0 t" "cap' = 1" by simp_all
  qed
  with g show "\<exists>g. built p = Inr g
           \<and> (\<forall>t. 0 \<le> t \<and> t \<le> T p - 2 \<longrightarrow>
                 edges_of g (OUT p 0 t) = [(IN p 0 (t + 1), 100), (TRANSIT p 0 (t + 1), 1)]
               \<and> edges_of g (TRANSIT p 0 (t + 1)) = [(IN p 1 (t + 2), 100)]
               \<and> (\<forall>from to' cap'. (from, to', cap') \<in> set (all_edges p g)
                      \<and> to' = TRANSIT p 0 (t + 1) \<longrightarrow> from = OUT p 0 t \<and> cap' = 1))"
    by blast
qed

theorem transit_route_edges_witness:
  "well_configured reference
   \<and> (\<exists>g. built reference = Inr g
        \<and> edges_of g (OUT reference 0 1) = [(IN reference 0 2, 100), (TRANSIT reference 0 2, 1)]
        \<and> edges_of g (TRANSIT reference 0 2) = [(IN reference 1 3, 100)]
        \<and> (OUT reference 0 1, TRANSIT reference 0 2, 1) \<in> set (all_edges reference g))
   \<and> T \<lparr>N_HUBS = 3, T = 1, M_RESTRICTED = 1\<rparr> < 2
   \<and> transit_loop \<lparr>N_HUBS = 3, T = 1, M_RESTRICTED = 1\<rparr> 0 0
        (graph_init \<lparr>N_HUBS = 3, T = 1, M_RESTRICTED = 1\<rparr>)
       = Inr (graph_init \<lparr>N_HUBS = 3, T = 1, M_RESTRICTED = 1\<rparr>)"
proof -
  let ?q = "\<lparr>N_HUBS = 3, T = 1, M_RESTRICTED = 1\<rparr>"
  note wc = reference_well_configured
  from transit_route_edges [of reference "graph_init reference"] wc
  obtain g where g: "built reference = Inr g"
    and a: "\<forall>t. 0 \<le> t \<and> t \<le> T reference - 2 \<longrightarrow>
        edges_of g (OUT reference 0 t) = [(IN reference 0 (t + 1), 100), (TRANSIT reference 0 (t + 1), 1)]
      \<and> edges_of g (TRANSIT reference 0 (t + 1)) = [(IN reference 1 (t + 2), 100)]
      \<and> (\<forall>from to' cap'. (from, to', cap') \<in> set (all_edges reference g)
             \<and> to' = TRANSIT reference 0 (t + 1) \<longrightarrow> from = OUT reference 0 t \<and> cap' = 1)"
    by blast
  have "(0::int) \<le> 1 \<and> 1 \<le> T reference - 2" by (simp add: reference_def)
  with a have "edges_of g (OUT reference 0 1)
        = [(IN reference 0 (1 + 1), 100), (TRANSIT reference 0 (1 + 1), 1)]
      \<and> edges_of g (TRANSIT reference 0 (1 + 1)) = [(IN reference 1 (1 + 2), 100)]"
    by blast
  then have b: "edges_of g (OUT reference 0 1) = [(IN reference 0 2, 100), (TRANSIT reference 0 2, 1)]"
    "edges_of g (TRANSIT reference 0 2) = [(IN reference 1 3, 100)]"
    by simp_all
  have "0 \<le> OUT reference 0 1 \<and> OUT reference 0 1 < TOTAL_NODES reference"
    by (simp add: OUT_def hub_time_def TOTAL_NODES_def HUB_SPLIT_COUNT_def HUB_TIME_COUNT_def
        TRANSIT_COUNT_def reference_def)
  with b(1) have m: "(OUT reference 0 1, TRANSIT reference 0 2, 1) \<in> set (all_edges reference g)"
    by (simp add: in_all_edges)
  have s: "T ?q < 2" by simp
  with transit_route_edges [of ?q "graph_init ?q"]
  have "transit_loop ?q 0 0 (graph_init ?q) = Inr (graph_init ?q)" by blast
  with wc g b m s show ?thesis by blast
qed

text \<open>
  C4. \<^verbatim>\<open>build_example\<close> makes the calls of the four steps in the fixed order split,
  wait, restricted route, normal. In every well configured build the run is defined and
  the list of every node is exactly the calls with that source, in call order; so the
  list of \<open>OUT(0, t)\<close>, for \<open>t \<le> T - 2\<close> (\<open>t\<close> in \<open>{0, 1}\<close> for the reference), holds
  the wait edge before the transit edge.
\<close>

theorem emission_order_preserved:
  "build_example p g0
     = run p (split_calls p @ wait_calls p @ transit_calls p @ normal_calls p) g0
   \<and> (well_configured p \<longrightarrow>
        (\<exists>g. built p = Inr g
           \<and> (\<forall>i. 0 \<le> i \<and> i < TOTAL_NODES p \<longrightarrow>
                 edges_of g i
                   = map snd (filter (\<lambda>c. fst c = i)
                       (split_calls p @ wait_calls p @ transit_calls p @ normal_calls p)))
           \<and> (\<forall>t. 0 \<le> t \<and> t \<le> T p - 2 \<longrightarrow>
                 edges_of g (OUT p 0 t) = [(IN p 0 (t + 1), 100), (TRANSIT p 0 (t + 1), 1)])))"
proof (intro conjI impI)
  show "build_example p g0
      = run p (split_calls p @ wait_calls p @ transit_calls p @ normal_calls p) g0"
    by (simp add: build_example_run emitted_def)
next
  assume wc: "well_configured p"
  note h = well_configured_hubs [OF wc]
  obtain g where g: "built p = Inr g"
    using built_defined [OF wc] by blast
  have adj: "\<forall>i. 0 \<le> i \<and> i < TOTAL_NODES p \<longrightarrow>
      edges_of g i = map snd (filter (\<lambda>c. fst c = i)
        (split_calls p @ wait_calls p @ transit_calls p @ normal_calls p))"
    using built_edges_of(1) [OF g] by (simp add: calls_of_def emitted_def)
  have "edges_of g (OUT p 0 t) = [(IN p 0 (t + 1), 100), (TRANSIT p 0 (t + 1), 1)]"
    if t: "0 \<le> t \<and> t \<le> T p - 2" for t
  proof -
    have "valid_coord p (Departure 0 t)" using t h by simp
    from built_adjacency [OF wc g this] t show ?thesis by simp
  qed
  with g adj show "\<exists>g. built p = Inr g
      \<and> (\<forall>i. 0 \<le> i \<and> i < TOTAL_NODES p \<longrightarrow>
            edges_of g i = map snd (filter (\<lambda>c. fst c = i)
              (split_calls p @ wait_calls p @ transit_calls p @ normal_calls p)))
      \<and> (\<forall>t. 0 \<le> t \<and> t \<le> T p - 2 \<longrightarrow>
            edges_of g (OUT p 0 t) = [(IN p 0 (t + 1), 100), (TRANSIT p 0 (t + 1), 1)])"
    by blast
qed

theorem emission_order_preserved_witness:
  "well_configured reference
   \<and> (\<exists>g. built reference = Inr g
        \<and> edges_of g (OUT reference 0 0) = [(IN reference 0 1, 100), (TRANSIT reference 0 1, 1)]
        \<and> edges_of g (OUT reference 0 1) = [(IN reference 0 2, 100), (TRANSIT reference 0 2, 1)]
        \<and> edges_of g 1 = [(6, 100), (25, 1)] \<and> edges_of g 7 = [(12, 100), (26, 1)]
        \<and> edges_of g 25 = [(14, 100)])"
proof -
  note wc = reference_well_configured
  from emission_order_preserved [of reference "graph_init reference"] wc
  obtain g where g: "built reference = Inr g"
    and i: "\<forall>i. 0 \<le> i \<and> i < TOTAL_NODES reference \<longrightarrow>
        edges_of g i = map snd (filter (\<lambda>c. fst c = i)
          (split_calls reference @ wait_calls reference @ transit_calls reference
            @ normal_calls reference))"
    and a: "\<forall>t. 0 \<le> t \<and> t \<le> T reference - 2 \<longrightarrow>
        edges_of g (OUT reference 0 t) = [(IN reference 0 (t + 1), 100), (TRANSIT reference 0 (t + 1), 1)]"
    by blast
  have "(0::int) \<le> 0 \<and> 0 \<le> T reference - 2" "(0::int) \<le> 1 \<and> 1 \<le> T reference - 2"
    by (simp_all add: reference_def)
  with a have "edges_of g (OUT reference 0 0)
        = [(IN reference 0 (0 + 1), 100), (TRANSIT reference 0 (0 + 1), 1)]"
    "edges_of g (OUT reference 0 1)
        = [(IN reference 0 (1 + 1), 100), (TRANSIT reference 0 (1 + 1), 1)]"
    by blast+
  then have b: "edges_of g (OUT reference 0 0) = [(IN reference 0 1, 100), (TRANSIT reference 0 1, 1)]"
    "edges_of g (OUT reference 0 1) = [(IN reference 0 2, 100), (TRANSIT reference 0 2, 1)]"
    by simp_all
  have ids: "OUT reference 0 0 = 1" "OUT reference 0 1 = 7" "IN reference 0 1 = 6"
    "IN reference 0 2 = 12" "TRANSIT reference 0 1 = 25" "TRANSIT reference 0 2 = 26"
    by (simp_all add: OUT_def IN_def hub_time_def TRANSIT_def TRANSIT_OFFSET_def
        HUB_SPLIT_COUNT_def HUB_TIME_COUNT_def reference_def)
  from b have c: "edges_of g 1 = [(6, 100), (25, 1)]" "edges_of g 7 = [(12, 100), (26, 1)]"
    by (simp_all add: ids)
  have "(0::int) \<le> 25 \<and> 25 < TOTAL_NODES reference"
    by (simp add: TOTAL_NODES_def HUB_SPLIT_COUNT_def HUB_TIME_COUNT_def TRANSIT_COUNT_def
        reference_def)
  with i have "edges_of g 25 = map snd (filter (\<lambda>c. fst c = 25)
      (split_calls reference @ wait_calls reference @ transit_calls reference
        @ normal_calls reference))"
    by blast
  also have "\<dots> = [(14, 100)]" by code_simp
  finally have d: "edges_of g 25 = [(14, 100)]" .
  from wc g b c d show ?thesis by blast
qed

text \<open>
  C5. In every well configured build, for each \<open>t\<close> with \<open>0 \<le> t < T\<close> and each of the
  hubs 0 and 2, the wait edge \<open>OUT(hub, t) -> IN(hub, t + 1)\<close> with capacity 100 is
  emitted exactly once and occurs exactly once in the list of \<open>OUT(hub, t)\<close>; for every
  other hub and every time, the list of \<open>OUT(hub, t)\<close> holds no edge to
  \<open>IN(hub, t + 1)\<close>, whatever the capacity.
\<close>

theorem wait_edges_at_hubs_0_and_2:
  assumes "well_configured p"
  shows "\<exists>g. built p = Inr g
     \<and> (\<forall>t hub. 0 \<le> t \<and> t < T p \<and> (hub = 0 \<or> hub = 2) \<longrightarrow>
           count_list (emitted p) (OUT p hub t, IN p hub (t + 1), 100) = 1
         \<and> count_list (edges_of g (OUT p hub t)) (IN p hub (t + 1), 100) = 1)
     \<and> (\<forall>t hub cap'. valid_hub_time p hub t \<and> hub \<noteq> 0 \<and> hub \<noteq> 2 \<longrightarrow>
           (IN p hub (t + 1), cap') \<notin> set (edges_of g (OUT p hub t)))"
proof -
  note h = well_configured_hubs [OF assms]
  obtain g where g: "built p = Inr g"
    using built_defined [OF assms] by blast
  have one: "count_list (emitted p) (OUT p hub t, IN p hub (t + 1), 100) = 1
      \<and> count_list (edges_of g (OUT p hub t)) (IN p hub (t + 1), 100) = 1"
    if a: "0 \<le> t \<and> t < T p \<and> (hub = 0 \<or> hub = 2)" for t hub
  proof -
    have v: "valid_coord p (Departure hub t)" using a h by auto
    have adj: "edges_of g (OUT p hub t) = expected_edges p (Departure hub t)"
      using built_adjacency [OF assms g v] by simp
    have c: "count_list (expected_edges p (Departure hub t)) (IN p hub (t + 1), 100) = 1"
      using a by auto
    have "count_list (emitted p) (OUT p hub t, IN p hub (t + 1), 100)
        = count_list (calls_of (emitted p) (node_id p (Departure hub t))) (IN p hub (t + 1), 100)"
      by (simp add: count_list_calls_of)
    also have "\<dots> = 1"
      using c by (simp only: calls_of_emitted [OF assms v])
    finally show ?thesis using adj c by simp
  qed
  have none: "(IN p hub (t + 1), cap') \<notin> set (edges_of g (OUT p hub t))"
    if a: "valid_hub_time p hub t \<and> hub \<noteq> 0 \<and> hub \<noteq> 2" for t hub cap'
  proof -
    have v: "valid_coord p (Departure hub t)" using a by (simp add: valid_hub_time_def)
    have "IN p hub (t + 1) \<noteq> IN p 2 (t + 1)"
      using a h IN_eq_iff [of hub p 2 "t + 1" "t + 1"] by (simp add: valid_hub_time_def)
    then show ?thesis
      using built_adjacency [OF assms g v] a by auto
  qed
  from g one none show ?thesis by blast
qed

theorem wait_edges_at_hubs_0_and_2_witness:
  "well_configured reference
   \<and> (\<exists>g. built reference = Inr g
        \<and> count_list (emitted reference) (OUT reference 2 1, IN reference 2 2, 100) = 1
        \<and> count_list (edges_of g (OUT reference 2 1)) (IN reference 2 2, 100) = 1
        \<and> valid_hub_time reference 1 1
        \<and> (IN reference 1 2, 100) \<notin> set (edges_of g (OUT reference 1 1)))"
proof -
  note wc = reference_well_configured
  from wait_edges_at_hubs_0_and_2 [OF wc]
  obtain g where g: "built reference = Inr g"
    and one: "\<forall>t hub. 0 \<le> t \<and> t < T reference \<and> (hub = 0 \<or> hub = 2) \<longrightarrow>
           count_list (emitted reference) (OUT reference hub t, IN reference hub (t + 1), 100) = 1
         \<and> count_list (edges_of g (OUT reference hub t)) (IN reference hub (t + 1), 100) = 1"
    and none: "\<forall>t hub cap'. valid_hub_time reference hub t \<and> hub \<noteq> 0 \<and> hub \<noteq> 2 \<longrightarrow>
           (IN reference hub (t + 1), cap') \<notin> set (edges_of g (OUT reference hub t))"
    by blast
  have "(0::int) \<le> 1 \<and> 1 < T reference \<and> ((2::int) = 0 \<or> (2::int) = 2)"
    by (simp add: reference_def)
  with one have "count_list (emitted reference) (OUT reference 2 1, IN reference 2 (1 + 1), 100) = 1
      \<and> count_list (edges_of g (OUT reference 2 1)) (IN reference 2 (1 + 1), 100) = 1"
    by blast
  then have a: "count_list (emitted reference) (OUT reference 2 1, IN reference 2 2, 100) = 1"
    "count_list (edges_of g (OUT reference 2 1)) (IN reference 2 2, 100) = 1"
    by simp_all
  have v: "valid_hub_time reference 1 1"
    by (simp add: valid_hub_time_def reference_def)
  then have "valid_hub_time reference 1 1 \<and> (1::int) \<noteq> 0 \<and> (1::int) \<noteq> 2" by simp
  with none have "(IN reference 1 (1 + 1), 100) \<notin> set (edges_of g (OUT reference 1 1))"
    by blast
  then have b: "(IN reference 1 2, 100) \<notin> set (edges_of g (OUT reference 1 1))" by simp
  from wc g a v b show ?thesis by blast
qed









end
